theory Spec2Isabelle
  imports Complex_Main "HOL-Library.Word"
begin

unbundle bit_operations_syntax

section \<open>JavaScript values\<close>

text \<open>
  Numbers are IEEE doubles. The model keeps the special values apart and carries a finite
  number by its exact rational value; \<open>Fin 0\<close> is \<open>+0\<close> and \<open>NegZero\<close> is \<open>-0\<close>,
  so that two numbers are the same value in the sense of \<open>Object.is\<close> exactly when they
  are equal in HOL.
\<close>

datatype jsnum = NaN | PosInf | NegInf | NegZero | Fin rat

datatype jsval =
    JUndefined
  | JNull
  | JBool bool
  | JNum jsnum
  | JStr string
  | JObj nat

datatype error = InvariantViolation | TypeError

definition is_zero :: "jsnum \<Rightarrow> bool" where
  "is_zero n = (n = Fin 0 \<or> n = NegZero)"

text \<open>The operator \<open>===\<close>: \<open>NaN\<close> equals nothing, the two zeros equal each other.\<close>

definition num_strict_eq :: "jsnum \<Rightarrow> jsnum \<Rightarrow> bool" where
  "num_strict_eq a b = (a \<noteq> NaN \<and> b \<noteq> NaN \<and> (a = b \<or> (is_zero a \<and> is_zero b)))"

fun strict_eq :: "jsval \<Rightarrow> jsval \<Rightarrow> bool" where
  "strict_eq (JNum a) (JNum b) = num_strict_eq a b"
| "strict_eq a b = (a = b)"

text \<open>
  \<open>1 / x\<close> on numbers. The quotient of a finite non-zero number is kept exact (no
  rounding); \<open>calculateChangedBits\<close> divides only when \<open>oldValue === 0\<close>, where both
  operands are zeros.
\<close>

fun reciprocal :: "jsnum \<Rightarrow> jsnum" where
  "reciprocal NaN = NaN"
| "reciprocal PosInf = Fin 0"
| "reciprocal NegInf = NegZero"
| "reciprocal NegZero = NegInf"
| "reciprocal (Fin q) = (if q = 0 then PosInf else Fin (1 / q))"

definition one_over :: "jsval \<Rightarrow> jsval" where
  "one_over v = (case v of JNum n \<Rightarrow> JNum (reciprocal n) | _ \<Rightarrow> JNum NaN)"

text \<open>\<open>ToInt32\<close>, the coercion behind \<open>x | 0\<close> and the operands of \<open>&\<close>.\<close>

definition wrap_int32 :: "int \<Rightarrow> int" where
  "wrap_int32 i = (let m = i mod 2 ^ 32 in if m \<ge> 2 ^ 31 then m - 2 ^ 32 else m)"

fun to_int32 :: "jsnum \<Rightarrow> int" where
  "to_int32 (Fin q) = wrap_int32 (if q \<ge> 0 then \<lfloor>q\<rfloor> else \<lceil>q\<rceil>)"
| "to_int32 _ = 0"

section \<open>ReactFiberNewContext: the data model\<close>

text \<open>
  Modelled from the spec: the module \<open>maxSigned31BitInt\<close> is not under src/. It is the
  largest 31-bit signed integer, the value that stands for "all bits changed / observed".
\<close>

definition MAX_SIGNED_31_BIT_INT :: rat where
  "MAX_SIGNED_31_BIT_INT = 1073741823"

definition maxSigned31BitInt :: jsval where
  "maxSigned31BitInt = JNum (Fin MAX_SIGNED_31_BIT_INT)"

text \<open>
  A context object. \<open>_calculateChangedBits\<close> is \<open>None\<close> when the field is not a
  function. The renderer marks exist in development builds only.
\<close>

datatype renderer_mark = MarkUndefined | MarkNull | MarkSigil nat

record react_context =
  ctx_calculateChangedBits :: "(jsval \<Rightarrow> jsval \<Rightarrow> jsnum) option"
  ctx_currentValue :: jsval
  ctx_currentValue2 :: jsval
  ctx_changedBits :: jsval
  ctx_changedBits2 :: jsval
  ctx_currentRenderer :: renderer_mark
  ctx_currentRenderer2 :: renderer_mark

text \<open>
  Modelled from the spec: \<open>shared/ReactTypeOfWork\<close> is not under src/; the tag of a
  fiber is its kind (host node, function or class component, provider, consumer, text,
  portal, ...).
\<close>

datatype work_tag =
    FunctionalComponent | ClassComponent | HostRoot | HostPortal | HostComponent
  | HostText | Fragment | Mode | ContextConsumer | ContextProvider | OtherWork nat

text \<open>
  The \<open>type\<close> of a fiber is compared by identity. \<open>ProviderType c\<close> is the object
  \<open>context.Provider\<close> of the context \<open>c\<close> (its field \<open>_context\<close> is \<open>c\<close>); every
  other type is \<open>ComponentType\<close> with its identity.
\<close>

datatype fiber_type = ProviderType nat | ComponentType nat

text \<open>
  A dependency list is the linked list of \<open>ContextDependency\<close> records of a fiber,
  \<open>[]\<close> for \<open>null\<close>. Fibers live in a store, addressed by numbers; a pointer is an
  optional address. Expiration times are natural numbers.
\<close>

record context_dependency =
  dep_context :: nat
  dep_observedBits :: jsnum

record fiber =
  tag :: work_tag
  type :: fiber_type
  pendingProps :: "string \<rightharpoonup> jsval"
  child :: "nat option"
  sibling :: "nat option"
  return :: "nat option"
  alternate :: "nat option"
  expirationTime :: nat
  childExpirationTime :: nat
  firstContextDependency :: "context_dependency list"

type_synonym fibers = "nat \<Rightarrow> fiber"

text \<open>
  Modelled from the spec: the module \<open>ReactFiberExpirationTime\<close> is not under src/.
  \<open>NoWork\<close> is the expiration time of a fiber with nothing pending; the proofs use it as
  a distinguished value only.
\<close>

definition NoWork :: nat where
  "NoWork = 0"

section \<open>propagateContextChange\<close>

text \<open>
  The loops of \<open>propagateContextChange\<close>, innermost first. Each may run forever on a
  store with cyclic pointers, so each returns \<open>None\<close> when it does not return.

  The loop \<open>while (node !== null)\<close> over the ancestors of a fiber that matched.
\<close>

partial_function (option) propagateContextChange_ancestors ::
  "nat \<Rightarrow> nat option \<Rightarrow> fibers \<Rightarrow> fibers option" where
  "propagateContextChange_ancestors renderExpirationTime node h =
     (case node of
        None \<Rightarrow> Some h
      | Some n \<Rightarrow>
          (let alt = alternate (h n) in
           if childExpirationTime (h n) = NoWork \<or>
              childExpirationTime (h n) > renderExpirationTime
           then
             (let h1 = h(n := (h n)\<lparr>childExpirationTime := renderExpirationTime\<rparr>);
                  h2 = (case alt of
                          Some a \<Rightarrow>
                            if childExpirationTime (h1 a) = NoWork \<or>
                               childExpirationTime (h1 a) > renderExpirationTime
                            then h1(a := (h1 a)\<lparr>childExpirationTime := renderExpirationTime\<rparr>)
                            else h1
                        | None \<Rightarrow> h1)
              in propagateContextChange_ancestors renderExpirationTime (return (h2 n)) h2)
           else
             (case alt of
                Some a \<Rightarrow>
                  if childExpirationTime (h a) = NoWork \<or>
                     childExpirationTime (h a) > renderExpirationTime
                  then
                    (let h1 = h(a := (h a)\<lparr>childExpirationTime := renderExpirationTime\<rparr>)
                     in propagateContextChange_ancestors renderExpirationTime (return (h1 n)) h1)
                  else Some h
              | None \<Rightarrow> Some h)))"

text \<open>The body of \<open>if (dependency.context === context && ...)\<close>: schedule an update.\<close>

definition propagateContextChange_schedule :: "nat \<Rightarrow> nat \<Rightarrow> fibers \<Rightarrow> fibers option" where
  "propagateContextChange_schedule renderExpirationTime f h =
     (let h1 = (if expirationTime (h f) = NoWork \<or> expirationTime (h f) > renderExpirationTime
                then h(f := (h f)\<lparr>expirationTime := renderExpirationTime\<rparr>)
                else h);
          h2 = (case alternate (h1 f) of
                  Some a \<Rightarrow>
                    if expirationTime (h1 a) = NoWork \<or>
                       expirationTime (h1 a) > renderExpirationTime
                    then h1(a := (h1 a)\<lparr>expirationTime := renderExpirationTime\<rparr>)
                    else h1
                | None \<Rightarrow> h1)
      in propagateContextChange_ancestors renderExpirationTime (return (h2 f)) h2)"

text \<open>The \<open>do ... while (dependency !== null)\<close> loop over the dependency list.\<close>

fun propagateContextChange_dependencies ::
  "nat \<Rightarrow> jsnum \<Rightarrow> nat \<Rightarrow> nat \<Rightarrow> context_dependency list \<Rightarrow> fibers \<Rightarrow> fibers option" where
  "propagateContextChange_dependencies context changedBits renderExpirationTime f [] h = Some h"
| "propagateContextChange_dependencies context changedBits renderExpirationTime f (d # ds) h =
     (if dep_context d = context \<and>
         (to_int32 (dep_observedBits d) AND to_int32 changedBits) \<noteq> 0
      then
        (case propagateContextChange_schedule renderExpirationTime f h of
           None \<Rightarrow> None
         | Some h1 \<Rightarrow>
             propagateContextChange_dependencies context changedBits renderExpirationTime f ds h1)
      else propagateContextChange_dependencies context changedBits renderExpirationTime f ds h)"

text \<open>"Visit this fiber": the new store and \<open>nextFiber\<close>.\<close>

definition propagateContextChange_visit ::
  "nat \<Rightarrow> nat \<Rightarrow> jsnum \<Rightarrow> nat \<Rightarrow> nat \<Rightarrow> fibers \<Rightarrow> (nat option \<times> fibers) option" where
  "propagateContextChange_visit workInProgress context changedBits renderExpirationTime f h =
     (let dependency = firstContextDependency (h f) in
      if dependency \<noteq> [] then
        (case propagateContextChange_dependencies context changedBits renderExpirationTime
                f dependency h of
           None \<Rightarrow> None
         | Some h1 \<Rightarrow> Some (child (h1 f), h1))
      else if tag (h f) = ContextProvider then
        Some (if type (h f) = type (h workInProgress) then None else child (h f), h)
      else Some (child (h f), h))"

text \<open>"No child. Traverse to next sibling": the loop \<open>while (nextFiber !== null)\<close>.\<close>

partial_function (option) propagateContextChange_next ::
  "nat \<Rightarrow> nat option \<Rightarrow> fibers \<Rightarrow> (nat option \<times> fibers) option" where
  "propagateContextChange_next workInProgress nextFiber h =
     (case nextFiber of
        None \<Rightarrow> Some (None, h)
      | Some n \<Rightarrow>
          if n = workInProgress then Some (None, h)
          else
            (case sibling (h n) of
               Some s \<Rightarrow> Some (Some s, h(s := (h s)\<lparr>return := return (h n)\<rparr>))
             | None \<Rightarrow> propagateContextChange_next workInProgress (return (h n)) h))"

text \<open>The outer loop \<open>while (fiber !== null)\<close>.\<close>

partial_function (option) propagateContextChange_loop ::
  "nat \<Rightarrow> nat \<Rightarrow> jsnum \<Rightarrow> nat \<Rightarrow> nat option \<Rightarrow> fibers \<Rightarrow> fibers option" where
  "propagateContextChange_loop workInProgress context changedBits renderExpirationTime fiber h =
     (case fiber of
        None \<Rightarrow> Some h
      | Some f \<Rightarrow>
          (case propagateContextChange_visit workInProgress context changedBits
                  renderExpirationTime f h of
             None \<Rightarrow> None
           | Some (nextFiber, h1) \<Rightarrow>
               (case nextFiber of
                  Some c \<Rightarrow>
                    propagateContextChange_loop workInProgress context changedBits
                      renderExpirationTime (Some c) (h1(c := (h1 c)\<lparr>return := Some f\<rparr>))
                | None \<Rightarrow>
                    (case propagateContextChange_next workInProgress (Some f) h1 of
                       None \<Rightarrow> None
                     | Some (nextFiber', h2) \<Rightarrow>
                         propagateContextChange_loop workInProgress context changedBits
                           renderExpirationTime nextFiber' h2))))"

definition propagateContextChange ::
  "nat \<Rightarrow> nat \<Rightarrow> jsnum \<Rightarrow> nat \<Rightarrow> fibers \<Rightarrow> fibers option" where
  "propagateContextChange workInProgress context changedBits renderExpirationTime h =
     (let fiber = child (h workInProgress);
          h0 = (case fiber of
                  Some c \<Rightarrow> h(c := (h c)\<lparr>return := Some workInProgress\<rparr>)
                | None \<Rightarrow> h)
      in propagateContextChange_loop workInProgress context changedBits renderExpirationTime
           fiber h0)"

section \<open>calculateChangedBits\<close>

text \<open>
  The result is a number: 0, or \<open>changedBits | 0\<close>. The warning of development builds
  about a result that is not a 31-bit integer only writes to the console and is left out.
\<close>

definition calculateChangedBits :: "react_context \<Rightarrow> jsval \<Rightarrow> jsval \<Rightarrow> int" where
  "calculateChangedBits context newValue oldValue =
     (if (strict_eq oldValue newValue \<and>
            (\<not> strict_eq oldValue (JNum (Fin 0)) \<or>
               strict_eq (one_over oldValue) (one_over newValue))) \<or>
         (\<not> strict_eq oldValue oldValue \<and> \<not> strict_eq newValue newValue)
      then 0
      else
        (let changedBits =
               (case ctx_calculateChangedBits context of
                  Some f \<Rightarrow> f oldValue newValue
                | None \<Rightarrow> Fin MAX_SIGNED_31_BIT_INT)
         in to_int32 changedBits))"

text \<open>\<open>createContext\<close> of ReactContext, as far as it fills the fields above.\<close>

definition createContext ::
  "bool \<Rightarrow> jsval \<Rightarrow> (jsval \<Rightarrow> jsval \<Rightarrow> jsnum) option \<Rightarrow> react_context" where
  "createContext dev defaultValue calculateChangedBits' =
     \<lparr>ctx_calculateChangedBits = calculateChangedBits',
      ctx_currentValue = defaultValue,
      ctx_currentValue2 = defaultValue,
      ctx_changedBits = JUndefined,
      ctx_changedBits2 = JUndefined,
      ctx_currentRenderer = (if dev then MarkNull else MarkUndefined),
      ctx_currentRenderer2 = (if dev then MarkNull else MarkUndefined)\<rparr>"

section \<open>The fiber tree under a work-in-progress fiber\<close>

text \<open>
  The child and sibling pointers of the store, read as a forest: \<open>Fiber a kids sibs\<close> is
  the fiber at address \<open>a\<close> with the forest \<open>kids\<close> of its children and the forest \<open>sibs\<close>
  of the siblings that follow it. \<open>fiber_forest h p t\<close> says that the pointer \<open>p\<close> leads to
  the forest \<open>t\<close> in the store \<open>h\<close>, and \<open>return_path h p ns\<close> that the return pointers
  from \<open>p\<close> run through the fibers \<open>ns\<close> and end in \<open>null\<close>.
\<close>

datatype fiber_tree = NoFiber | Fiber nat fiber_tree fiber_tree

fun nodes :: "fiber_tree \<Rightarrow> nat list" where
  "nodes NoFiber = []"
| "nodes (Fiber a l r) = a # nodes l @ nodes r"

fun fiber_forest :: "fibers \<Rightarrow> nat option \<Rightarrow> fiber_tree \<Rightarrow> bool" where
  "fiber_forest h p NoFiber = (p = None)"
| "fiber_forest h p (Fiber a l r) =
     (p = Some a \<and> fiber_forest h (child (h a)) l \<and> fiber_forest h (sibling (h a)) r)"

fun return_path :: "fibers \<Rightarrow> nat option \<Rightarrow> nat list \<Rightarrow> bool" where
  "return_path h p [] = (p = None)"
| "return_path h p (a # as) = (p = Some a \<and> return_path h (return (h a)) as)"

text \<open>
  A dependency record that matches the changed context, a fiber that has one, and the
  case in which the walk does not scan below a fiber: a provider of the same type as the
  work-in-progress fiber, reached through the \<open>else if\<close> branch, that is, one with no
  dependency list. \<open>nested_provider\<close> is the same without the condition on the list.
\<close>

definition dependency_matches :: "nat \<Rightarrow> jsnum \<Rightarrow> context_dependency \<Rightarrow> bool" where
  "dependency_matches c b d =
     (dep_context d = c \<and> (to_int32 (dep_observedBits d) AND to_int32 b) \<noteq> 0)"

definition fiber_matches :: "nat \<Rightarrow> jsnum \<Rightarrow> fiber \<Rightarrow> bool" where
  "fiber_matches c b f = (\<exists>d \<in> set (firstContextDependency f). dependency_matches c b d)"

definition shields :: "nat \<Rightarrow> fibers \<Rightarrow> nat \<Rightarrow> bool" where
  "shields w h a =
     (firstContextDependency (h a) = [] \<and> tag (h a) = ContextProvider \<and>
      type (h a) = type (h w))"

definition nested_provider :: "nat \<Rightarrow> fibers \<Rightarrow> nat \<Rightarrow> bool" where
  "nested_provider w h a = (tag (h a) = ContextProvider \<and> type (h a) = type (h w))"

text \<open>
  The fibers of a forest that the walk reaches, alone and each with its ancestors (parent
  first, up to the root), and the fibers strictly below a fiber that satisfies \<open>P\<close>.
\<close>

fun reached :: "nat \<Rightarrow> fibers \<Rightarrow> fiber_tree \<Rightarrow> nat list" where
  "reached w h NoFiber = []"
| "reached w h (Fiber a kids sibs) =
     a # (if shields w h a then [] else reached w h kids) @ reached w h sibs"

fun reached_with_ancestors ::
  "nat \<Rightarrow> fibers \<Rightarrow> nat list \<Rightarrow> fiber_tree \<Rightarrow> (nat \<times> nat list) list" where
  "reached_with_ancestors w h anc NoFiber = []"
| "reached_with_ancestors w h anc (Fiber a kids sibs) =
     (a, anc) #
     (if shields w h a then [] else reached_with_ancestors w h (a # anc) kids) @
     reached_with_ancestors w h anc sibs"

fun below :: "(nat \<Rightarrow> bool) \<Rightarrow> fiber_tree \<Rightarrow> nat list" where
  "below P NoFiber = []"
| "below P (Fiber a kids sibs) = (if P a then nodes kids else below P kids) @ below P sibs"

text \<open>
  What scheduling does to a time field: it becomes \<open>renderExpirationTime\<close> if it was
  \<open>NoWork\<close> or larger. In the order of urgency \<open>NoWork\<close> is the least urgent time, and
  among the others a smaller one is more urgent.
\<close>

definition lowered :: "nat \<Rightarrow> nat \<Rightarrow> nat" where
  "lowered renderExpirationTime t =
     (if t = NoWork \<or> t > renderExpirationTime then renderExpirationTime else t)"

definition at_least_as_urgent :: "nat \<Rightarrow> nat \<Rightarrow> bool" where
  "at_least_as_urgent t renderExpirationTime =
     (renderExpirationTime = NoWork \<or> (t \<noteq> NoWork \<and> t \<le> renderExpirationTime))"

text \<open>
  The part of the child-expiration-time invariant that the walk relies on when it leaves
  the loop over the ancestors early: along the ancestors of every fiber of the forest, a
  child expiration time at least as urgent as \<open>r\<close> is followed only by such times.
\<close>

fun chain_summarized :: "nat \<Rightarrow> fibers \<Rightarrow> nat list \<Rightarrow> bool" where
  "chain_summarized r h [] = True"
| "chain_summarized r h (n # ns) =
     ((at_least_as_urgent (childExpirationTime (h n)) r \<longrightarrow>
         (\<forall>m \<in> set ns. at_least_as_urgent (childExpirationTime (h m)) r)) \<and>
      chain_summarized r h ns)"

fun summarized :: "nat \<Rightarrow> fibers \<Rightarrow> nat list \<Rightarrow> fiber_tree \<Rightarrow> bool" where
  "summarized r h anc NoFiber = chain_summarized r h anc"
| "summarized r h anc (Fiber a kids sibs) =
     (summarized r h (a # anc) kids \<and> summarized r h anc sibs)"

text \<open>
  The alternate of a fiber in \<open>B\<close> is not in \<open>B\<close>: it belongs to the other tree.
\<close>

definition alternates_outside :: "fibers \<Rightarrow> nat set \<Rightarrow> bool" where
  "alternates_outside h B =
     (\<forall>y \<in> B. case alternate (h y) of Some z \<Rightarrow> z \<notin> B | None \<Rightarrow> True)"

text \<open>
  The subtree that \<open>propagateContextChange\<close> walks: below the work-in-progress fiber \<open>w\<close>
  the child and sibling pointers form the forest \<open>t\<close>, above it the return pointers form
  the path \<open>up\<close> to the root, no fiber occurs twice, and the alternate of a fiber of the
  subtree or of the path is a fiber of the other tree.
\<close>

definition fiber_subtree :: "fibers \<Rightarrow> nat \<Rightarrow> fiber_tree \<Rightarrow> nat list \<Rightarrow> bool" where
  "fiber_subtree h w t up =
     (fiber_forest h (child (h w)) t \<and> distinct (nodes t @ w # up) \<and>
      return_path h (return (h w)) up \<and>
      alternates_outside h (set (nodes t) \<union> set (w # up)))"

text \<open>
  The expiration time of a fiber in the store that a call returns.
\<close>

definition expirationTime_after :: "fibers option \<Rightarrow> nat \<Rightarrow> nat option" where
  "expirationTime_after result x =
     (case result of Some h' \<Rightarrow> Some (expirationTime (h' x)) | None \<Rightarrow> None)"

subsection \<open>The walk as a recursion over the forest\<close>

text \<open>
  The same walk written by recursion over the forest, with the ancestors of the current
  fiber as a list instead of the return pointers. The theorems about
  \<open>propagateContextChange\<close> are proved on this form, after
  \<open>propagateContextChange_refine\<close> has shown that the loops compute it.
\<close>

definition lower_expirationTime :: "nat \<Rightarrow> nat \<Rightarrow> fibers \<Rightarrow> fibers" where
  "lower_expirationTime r a h = h(a := (h a)\<lparr>expirationTime := lowered r (expirationTime (h a))\<rparr>)"

definition lower_childExpirationTime :: "nat \<Rightarrow> nat \<Rightarrow> fibers \<Rightarrow> fibers" where
  "lower_childExpirationTime r a h =
     h(a := (h a)\<lparr>childExpirationTime := lowered r (childExpirationTime (h a))\<rparr>)"

definition set_return :: "nat \<Rightarrow> nat option \<Rightarrow> fibers \<Rightarrow> fibers" where
  "set_return a p h = h(a := (h a)\<lparr>return := p\<rparr>)"

definition on_alternate :: "(nat \<Rightarrow> fibers \<Rightarrow> fibers) \<Rightarrow> nat \<Rightarrow> fibers \<Rightarrow> fibers" where
  "on_alternate f a h = (case alternate (h a) of Some b \<Rightarrow> f b h | None \<Rightarrow> h)"

fun mark_ancestors :: "nat \<Rightarrow> nat list \<Rightarrow> fibers \<Rightarrow> fibers" where
  "mark_ancestors r [] h = h"
| "mark_ancestors r (n # ns) h =
     (if childExpirationTime (h n) = NoWork \<or> childExpirationTime (h n) > r
      then mark_ancestors r ns
             (on_alternate (lower_childExpirationTime r) n (lower_childExpirationTime r n h))
      else
        (case alternate (h n) of
           Some b \<Rightarrow>
             if childExpirationTime (h b) = NoWork \<or> childExpirationTime (h b) > r
             then mark_ancestors r ns (lower_childExpirationTime r b h)
             else h
         | None \<Rightarrow> h))"

definition schedule_update :: "nat \<Rightarrow> nat \<Rightarrow> nat list \<Rightarrow> fibers \<Rightarrow> fibers" where
  "schedule_update r f ns h =
     mark_ancestors r ns (on_alternate (lower_expirationTime r) f (lower_expirationTime r f h))"

fun visit_dependencies ::
  "nat \<Rightarrow> jsnum \<Rightarrow> nat \<Rightarrow> nat \<Rightarrow> nat list \<Rightarrow> context_dependency list \<Rightarrow> fibers \<Rightarrow> fibers" where
  "visit_dependencies c b r f ns [] h = h"
| "visit_dependencies c b r f ns (d # ds) h =
     visit_dependencies c b r f ns ds
       (if dependency_matches c b d then schedule_update r f ns h else h)"

fun walk_forest ::
  "nat \<Rightarrow> nat \<Rightarrow> jsnum \<Rightarrow> nat \<Rightarrow> nat list \<Rightarrow> fiber_tree \<Rightarrow> fibers \<Rightarrow> fibers" where
  "walk_forest w c b r anc NoFiber h = h"
| "walk_forest w c b r anc (Fiber a kids sibs) h =
     (let h0 = set_return a (case anc of [] \<Rightarrow> None | p # _ \<Rightarrow> Some p) h;
          h1 = visit_dependencies c b r a anc (firstContextDependency (h0 a)) h0;
          h2 = (if shields w h1 a then h1 else walk_forest w c b r (a # anc) kids h1)
      in walk_forest w c b r anc sibs h2)"

text \<open>
  What the loop does once a fiber and all that follows it under its parent \<open>p\<close> is done.
\<close>

definition resume :: "nat \<Rightarrow> nat \<Rightarrow> jsnum \<Rightarrow> nat \<Rightarrow> nat \<Rightarrow> fibers \<Rightarrow> fibers option" where
  "resume w c b r p h =
     (case propagateContextChange_next w (Some p) h of
        None \<Rightarrow> None
      | Some (nextFiber, h') \<Rightarrow> propagateContextChange_loop w c b r nextFiber h')"

text \<open>
  Relations between a store and a later one: the same links (everything but the two time
  fields), the same shape (the links but for the return pointer), time fields that are
  each unchanged or lowered. A fiber is untouched by a set when it is neither in it nor
  the alternate of one of its members, and urgent when its child expiration time is at
  least as urgent as \<open>r\<close>.
\<close>

definition same_links :: "fibers \<Rightarrow> fibers \<Rightarrow> bool" where
  "same_links h h' =
     (\<forall>x. return (h' x) = return (h x) \<and> alternate (h' x) = alternate (h x) \<and>
          child (h' x) = child (h x) \<and> sibling (h' x) = sibling (h x) \<and>
          tag (h' x) = tag (h x) \<and> type (h' x) = type (h x) \<and>
          firstContextDependency (h' x) = firstContextDependency (h x))"

definition same_shape :: "fibers \<Rightarrow> fibers \<Rightarrow> bool" where
  "same_shape h h' =
     (\<forall>x. alternate (h' x) = alternate (h x) \<and>
          child (h' x) = child (h x) \<and> sibling (h' x) = sibling (h x) \<and>
          tag (h' x) = tag (h x) \<and> type (h' x) = type (h x) \<and>
          firstContextDependency (h' x) = firstContextDependency (h x))"

definition step :: "nat \<Rightarrow> nat \<Rightarrow> nat \<Rightarrow> bool" where
  "step r e e' = (e' = e \<or> e' = lowered r e)"

definition times_step :: "nat \<Rightarrow> fibers \<Rightarrow> fibers \<Rightarrow> bool" where
  "times_step r h h' =
     (\<forall>x. step r (expirationTime (h x)) (expirationTime (h' x)) \<and>
          step r (childExpirationTime (h x)) (childExpirationTime (h' x)))"

definition untouched :: "fibers \<Rightarrow> nat set \<Rightarrow> nat \<Rightarrow> bool" where
  "untouched h S x = (x \<notin> S \<and> (\<forall>y \<in> S. alternate (h y) \<noteq> Some x))"

definition urgent :: "nat \<Rightarrow> fibers \<Rightarrow> nat \<Rightarrow> bool" where
  "urgent r h n = at_least_as_urgent (childExpirationTime (h n)) r"

section \<open>A fiber tree for the examples\<close>

text \<open>A fiber as \<open>createFiber\<close> leaves it.\<close>

definition blank_fiber :: "work_tag \<Rightarrow> fiber_type \<Rightarrow> fiber" where
  "blank_fiber t ty =
     \<lparr>tag = t, type = ty, pendingProps = Map.empty, child = None, sibling = None,
      return = None, alternate = None, expirationTime = NoWork,
      childExpirationTime = NoWork, firstContextDependency = []\<rparr>"

text \<open>
  A store for the examples. Fiber 4 is a provider of context 0 under the root 9, which
  has work pending below it at expiration time 3. Its
  children are the consumer 5 and a nested provider 6 of the same context, whose child is
  the consumer 7. The fibers 4 and 5 have the alternates 14 and 15. The dependency list of
  the nested provider is a parameter.
\<close>

definition example_fibers :: "context_dependency list \<Rightarrow> fibers" where
  "example_fibers deps a =
     (if a = 9 then
        (blank_fiber HostRoot (ComponentType 9))\<lparr>child := Some 4, childExpirationTime := 3\<rparr>
      else if a = 4 then
        (blank_fiber ContextProvider (ProviderType 0))
          \<lparr>child := Some 5, return := Some 9, alternate := Some 14\<rparr>
      else if a = 5 then
        (blank_fiber ContextConsumer (ComponentType 1))
          \<lparr>sibling := Some 6, alternate := Some 15,
           firstContextDependency :=
             [\<lparr>dep_context = 0, dep_observedBits = Fin MAX_SIGNED_31_BIT_INT\<rparr>]\<rparr>
      else if a = 6 then
        (blank_fiber ContextProvider (ProviderType 0))
          \<lparr>child := Some 7, firstContextDependency := deps\<rparr>
      else if a = 7 then
        (blank_fiber ContextConsumer (ComponentType 1))
          \<lparr>firstContextDependency :=
             [\<lparr>dep_context = 0, dep_observedBits = Fin MAX_SIGNED_31_BIT_INT\<rparr>]\<rparr>
      else if a = 14 then
        (blank_fiber ContextProvider (ProviderType 0))\<lparr>alternate := Some 4\<rparr>
      else if a = 15 then
        (blank_fiber ContextConsumer (ComponentType 1))\<lparr>alternate := Some 5\<rparr>
      else blank_fiber HostComponent (ComponentType a))"

definition example_tree :: fiber_tree where
  "example_tree = Fiber 5 NoFiber (Fiber 6 (Fiber 7 NoFiber NoFiber) NoFiber)"

section \<open>ReactFiberNewContext: the module state\<close>

text \<open>
  The host configuration: \<open>isPrimaryRenderer\<close> of ReactFiberHostConfig, the build flag
  \<open>__DEV__\<close> and the renderer's \<open>rendererSigil\<close> object.
\<close>

record host_config =
  isPrimaryRenderer :: bool
  dev :: bool
  rendererSigil :: nat

datatype cursor = ValueCursor | ChangedBitsCursor

text \<open>
  The state the module works on: the stores of fibers and of context objects, the two stack
  cursors with the value stack they share, the console, and the module's variables.
  \<open>lastContextDependency\<close> points at the last record of the dependency list being built;
  with lists kept as HOL lists it is kept as the address of the fiber that owns this list.
\<close>

record module_state =
  fiber_store :: "nat \<Rightarrow> fiber"
  context_store :: "nat \<Rightarrow> react_context"
  cursor_current :: "cursor \<Rightarrow> jsval"
  valueStack :: "jsval list"
  console_warnings :: "string list"
  currentlyRenderingFiber :: "nat option"
  lastContextDependency :: "nat option"
  lastContextWithAllBitsObserved :: "nat option"

text \<open>
  Modelled from the spec: ReactFiberStack (\<open>createCursor\<close>, \<open>push\<close>, \<open>pop\<close>) is not under
  src/. A cursor holds a current value; \<open>push\<close> saves the cursor's current value on the
  value stack and installs the new one; \<open>pop\<close> restores the cursor from the top of the
  stack, and does nothing on an empty stack. The fiber argument is for diagnostics only.
\<close>

definition push :: "cursor \<Rightarrow> jsval \<Rightarrow> nat \<Rightarrow> module_state \<Rightarrow> module_state" where
  "push cur v providerFiber s =
     s\<lparr>valueStack := cursor_current s cur # valueStack s,
       cursor_current := (cursor_current s)(cur := v)\<rparr>"

definition pop :: "cursor \<Rightarrow> nat \<Rightarrow> module_state \<Rightarrow> module_state" where
  "pop cur providerFiber s =
     (case valueStack s of
        [] \<Rightarrow> s
      | x # xs \<Rightarrow> s\<lparr>cursor_current := (cursor_current s)(cur := x), valueStack := xs\<rparr>)"

definition get_prop :: "(string \<rightharpoonup> jsval) \<Rightarrow> string \<Rightarrow> jsval" where
  "get_prop obj k = (case obj k of Some v \<Rightarrow> v | None \<Rightarrow> JUndefined)"

definition warningWithoutStack :: "bool \<Rightarrow> string \<Rightarrow> module_state \<Rightarrow> module_state" where
  "warningWithoutStack condition message s =
     (if condition then s else s\<lparr>console_warnings := console_warnings s @ [message]\<rparr>)"

definition resetContextDependences :: "module_state \<Rightarrow> module_state" where
  "resetContextDependences s =
     s\<lparr>currentlyRenderingFiber := None,
       lastContextDependency := None,
       lastContextWithAllBitsObserved := None\<rparr>"

section \<open>pushProvider and popProvider\<close>

text \<open>
  Reading \<open>providerFiber.type._context\<close> gives \<open>undefined\<close> for a type that is not a
  provider, and the first access to a field of it throws.
\<close>

definition pushProvider ::
  "host_config \<Rightarrow> nat \<Rightarrow> jsnum \<Rightarrow> module_state \<Rightarrow> (error + unit) \<times> module_state" where
  "pushProvider cfg providerFiber changedBits s =
     (case type (fiber_store s providerFiber) of
        ComponentType _ \<Rightarrow> (Inl TypeError, s)
      | ProviderType context \<Rightarrow>
          if isPrimaryRenderer cfg then
            (let s1 = push ChangedBitsCursor (ctx_changedBits (context_store s context))
                        providerFiber s;
                 s2 = push ValueCursor (ctx_currentValue (context_store s1 context))
                        providerFiber s1;
                 s3 = s2\<lparr>context_store := (context_store s2)
                        (context := (context_store s2 context)
                           \<lparr>ctx_currentValue :=
                              get_prop (pendingProps (fiber_store s2 providerFiber)) ''value'',
                            ctx_changedBits := JNum changedBits\<rparr>)\<rparr>
             in if dev cfg then
                  (let s4 = warningWithoutStack
                              (ctx_currentRenderer (context_store s3 context) = MarkUndefined \<or>
                               ctx_currentRenderer (context_store s3 context) = MarkNull \<or>
                               ctx_currentRenderer (context_store s3 context)
                                 = MarkSigil (rendererSigil cfg))
                              ''Detected multiple renderers concurrently rendering the same context provider. This is currently unsupported.''
                              s3
                   in (Inr (), s4\<lparr>context_store := (context_store s4)
                          (context := (context_store s4 context)
                             \<lparr>ctx_currentRenderer := MarkSigil (rendererSigil cfg)\<rparr>)\<rparr>))
                else (Inr (), s3))
          else
            (let s1 = push ChangedBitsCursor (ctx_changedBits2 (context_store s context))
                        providerFiber s;
                 s2 = push ValueCursor (ctx_currentValue2 (context_store s1 context))
                        providerFiber s1;
                 s3 = s2\<lparr>context_store := (context_store s2)
                        (context := (context_store s2 context)
                           \<lparr>ctx_currentValue2 :=
                              get_prop (pendingProps (fiber_store s2 providerFiber)) ''value'',
                            ctx_changedBits2 := JNum changedBits\<rparr>)\<rparr>
             in if dev cfg then
                  (let s4 = warningWithoutStack
                              (ctx_currentRenderer2 (context_store s3 context) = MarkUndefined \<or>
                               ctx_currentRenderer2 (context_store s3 context) = MarkNull \<or>
                               ctx_currentRenderer2 (context_store s3 context)
                                 = MarkSigil (rendererSigil cfg))
                              ''Detected multiple renderers concurrently rendering the same context provider. This is currently unsupported.''
                              s3
                   in (Inr (), s4\<lparr>context_store := (context_store s4)
                          (context := (context_store s4 context)
                             \<lparr>ctx_currentRenderer2 := MarkSigil (rendererSigil cfg)\<rparr>)\<rparr>))
                else (Inr (), s3)))"

definition popProvider ::
  "host_config \<Rightarrow> nat \<Rightarrow> module_state \<Rightarrow> (error + unit) \<times> module_state" where
  "popProvider cfg providerFiber s =
     (let changedBits = cursor_current s ChangedBitsCursor;
          currentValue = cursor_current s ValueCursor;
          s1 = pop ValueCursor providerFiber s;
          s2 = pop ChangedBitsCursor providerFiber s1
      in case type (fiber_store s2 providerFiber) of
           ComponentType _ \<Rightarrow> (Inl TypeError, s2)
         | ProviderType context \<Rightarrow>
             if isPrimaryRenderer cfg then
               (Inr (), s2\<lparr>context_store := (context_store s2)
                   (context := (context_store s2 context)
                      \<lparr>ctx_currentValue := currentValue, ctx_changedBits := changedBits\<rparr>)\<rparr>)
             else
               (Inr (), s2\<lparr>context_store := (context_store s2)
                   (context := (context_store s2 context)
                      \<lparr>ctx_currentValue2 := currentValue, ctx_changedBits2 := changedBits\<rparr>)\<rparr>))"

section \<open>readContext\<close>

definition readContext ::
  "host_config \<Rightarrow> nat \<Rightarrow> jsval \<Rightarrow> module_state \<Rightarrow> (error + jsval) \<times> module_state" where
  "readContext cfg context observedBits s =
     (let result = (\<lambda>s'. (Inr (if isPrimaryRenderer cfg
                                then ctx_currentValue (context_store s' context)
                                else ctx_currentValue2 (context_store s' context)), s'))
      in
      if lastContextWithAllBitsObserved s = Some context then result s
      else if observedBits = JBool False \<or> strict_eq observedBits (JNum (Fin 0)) then result s
      else
        (let (resolvedObservedBits, s1) =
               (case observedBits of
                  JNum n \<Rightarrow>
                    if strict_eq observedBits maxSigned31BitInt
                    then (Fin MAX_SIGNED_31_BIT_INT,
                          s\<lparr>lastContextWithAllBitsObserved := Some context\<rparr>)
                    else (n, s)
                | _ \<Rightarrow> (Fin MAX_SIGNED_31_BIT_INT,
                        s\<lparr>lastContextWithAllBitsObserved := Some context\<rparr>));
             contextItem = \<lparr>dep_context = context, dep_observedBits = resolvedObservedBits\<rparr>
         in case lastContextDependency s1 of
              None \<Rightarrow>
                (case currentlyRenderingFiber s1 of
                   None \<Rightarrow> (Inl InvariantViolation, s1)
                 | Some f \<Rightarrow>
                     result (s1\<lparr>fiber_store := (fiber_store s1)
                                 (f := (fiber_store s1 f)
                                    \<lparr>firstContextDependency := [contextItem]\<rparr>),
                               lastContextDependency := Some f\<rparr>))
            | Some l \<Rightarrow>
                result (s1\<lparr>fiber_store := (fiber_store s1)
                            (l := (fiber_store s1 l)
                               \<lparr>firstContextDependency :=
                                  firstContextDependency (fiber_store s1 l) @ [contextItem]\<rparr>)\<rparr>)))"

text \<open>
  \<open>readContext\<close> of ReactContext, the public entry: it goes through the dispatcher that
  \<open>ReactCurrentOwner.currentDispatcher\<close> holds while a render is active.
\<close>

definition ReactContext_readContext ::
  "(nat \<Rightarrow> jsval \<Rightarrow> 's \<Rightarrow> (error + jsval) \<times> 's) option \<Rightarrow> nat \<Rightarrow> jsval \<Rightarrow> 's
     \<Rightarrow> (error + jsval) \<times> 's" where
  "ReactContext_readContext currentDispatcher context observedBits s =
     (case currentDispatcher of
        None \<Rightarrow> (Inl InvariantViolation, s)
      | Some dispatcher_readContext \<Rightarrow> dispatcher_readContext context observedBits s)"

text \<open>The module state when the module is loaded.\<close>

definition initial_module_state :: "(nat \<Rightarrow> fiber) \<Rightarrow> (nat \<Rightarrow> react_context) \<Rightarrow> module_state" where
  "initial_module_state fs cs =
     \<lparr>fiber_store = fs, context_store = cs,
      cursor_current = (\<lambda>c. case c of ValueCursor \<Rightarrow> JNull | ChangedBitsCursor \<Rightarrow> JNum (Fin 0)),
      valueStack = [], console_warnings = [],
      currentlyRenderingFiber = None, lastContextDependency = None,
      lastContextWithAllBitsObserved = None\<rparr>"

text \<open>
  A small store for the examples: fiber 1 is a provider of context 0, whose pending props
  carry the value \<open>''new''\<close>; every other fiber is a host component.
\<close>

definition example_config :: host_config where
  "example_config = \<lparr>isPrimaryRenderer = True, dev = True, rendererSigil = 7\<rparr>"

definition example_module_state :: module_state where
  "example_module_state =
     initial_module_state
       (\<lambda>a. if a = 1
            then (blank_fiber ContextProvider (ProviderType 0))
                   \<lparr>pendingProps := [''value'' \<mapsto> JStr ''new'']\<rparr>
            else blank_fiber HostComponent (ComponentType a))
       (\<lambda>c. createContext True (JStr ''default'') None)"

section \<open>ReactFiberDevToolsHook\<close>

text \<open>
  A JavaScript call either returns or throws a value, and may change the world outside the
  module (\<open>'w\<close>); a throw is \<open>Inl\<close>. The callbacks of the DevTools hook are such calls.
\<close>

type_synonym ('a, 'w) js_call = "'w \<Rightarrow> (jsval + 'a) \<times> 'w"

datatype priority_arg = PriorityUndefined | PriorityLevel nat

record fiber_root =
  current_effectTag :: int

datatype hook_call =
    ScheduleFiberRoot jsval fiber_root jsval
  | CommitFiberRoot jsval fiber_root priority_arg bool
  | CommitFiberUnmount jsval nat

type_synonym 'w hook_callback = "hook_call \<Rightarrow> (unit, 'w) js_call"

text \<open>
  The object \<open>__REACT_DEVTOOLS_GLOBAL_HOOK__\<close> as \<open>injectInternals\<close> reads it. A callback
  field is \<open>None\<close> when it does not hold a function.
\<close>

record 'w global_hook =
  isDisabled :: bool
  supportsFiber :: bool
  inject :: "jsval \<Rightarrow> (jsval, 'w) js_call"
  hook_onScheduleFiberRoot :: "'w hook_callback option"
  hook_onCommitFiberRoot :: "'w hook_callback option"
  hook_onCommitFiberUnmount :: "'w hook_callback option"

text \<open>
  What the module imports: the build flag \<open>__DEV__\<close>, \<open>enableProfilerTimer\<close>, the effect tag
  \<open>DidCapture\<close>, \<open>getCurrentTime\<close> and \<open>inferPriorityFromExpirationTime\<close>. None of these
  modules is under src/, so they are parameters.
\<close>

record 'w devtools_env =
  DEV :: bool
  enableProfilerTimer :: bool
  DidCapture :: int
  getCurrentTime :: "(nat, 'w) js_call"
  inferPriorityFromExpirationTime :: "nat \<Rightarrow> nat \<Rightarrow> (nat, 'w) js_call"

text \<open>
  The module's variables, the console (each \<open>console.error\<close> call with its format string
  and argument) and the world outside.
\<close>

record 'w devtools_state =
  onScheduleFiberRoot :: "'w hook_callback option"
  rendererID :: jsval
  onCommitFiberRoot :: "'w hook_callback option"
  onCommitFiberUnmount :: "'w hook_callback option"
  hasLoggedError :: bool
  console_error :: "(string \<times> jsval) list"
  world :: 'w

definition initial_devtools_state :: "'w \<Rightarrow> 'w devtools_state" where
  "initial_devtools_state w =
     \<lparr>onScheduleFiberRoot = None, rendererID = JNull, onCommitFiberRoot = None,
      onCommitFiberUnmount = None, hasLoggedError = False, console_error = [], world = w\<rparr>"

text \<open>Running a call against the world the state holds, sequencing, and \<open>try ... catch\<close>.\<close>

definition call_out :: "('a, 'w) js_call \<Rightarrow> 'w devtools_state \<Rightarrow> (jsval + 'a) \<times> 'w devtools_state" where
  "call_out c s = (case c (world s) of (r, w) \<Rightarrow> (r, s\<lparr>world := w\<rparr>))"

definition and_then ::
  "('s \<Rightarrow> (jsval + 'a) \<times> 's) \<Rightarrow> ('a \<Rightarrow> 's \<Rightarrow> (jsval + 'b) \<times> 's) \<Rightarrow> 's \<Rightarrow> (jsval + 'b) \<times> 's" where
  "and_then m k s = (case m s of (Inl err, s') \<Rightarrow> (Inl err, s') | (Inr v, s') \<Rightarrow> k v s')"

definition try_catch ::
  "('s \<Rightarrow> (jsval + 'a) \<times> 's) \<Rightarrow> (jsval \<Rightarrow> 's \<Rightarrow> (jsval + 'a) \<times> 's) \<Rightarrow> 's \<Rightarrow> (jsval + 'a) \<times> 's" where
  "try_catch body handler s =
     (case body s of (Inl err, s') \<Rightarrow> handler err s' | (Inr v, s') \<Rightarrow> (Inr v, s'))"

definition log_error :: "string \<Rightarrow> jsval \<Rightarrow> 'w devtools_state \<Rightarrow> 'w devtools_state" where
  "log_error format err s = s\<lparr>console_error := console_error s @ [(format, err)]\<rparr>"

definition injectInternals ::
  "'w devtools_env \<Rightarrow> 'w global_hook option \<Rightarrow> jsval \<Rightarrow> 'w devtools_state
     \<Rightarrow> (jsval + bool) \<times> 'w devtools_state" where
  "injectInternals env global_hook internals s =
     (case global_hook of
        None \<Rightarrow> (Inr False, s)
      | Some hook \<Rightarrow>
          if isDisabled hook then (Inr True, s)
          else if \<not> supportsFiber hook then
            (Inr True,
             if DEV env
             then log_error ''The installed version of React DevTools is too old and will not work with the current version of React. Please update React DevTools. https://fb.me/react-devtools'' JUndefined s
             else s)
          else
            and_then
              (try_catch
                 (and_then (call_out (inject hook internals))
                    (\<lambda>id s1.
                       (let s2 = s1\<lparr>rendererID := id\<rparr>;
                            s3 = (if DEV env
                                  then (case hook_onScheduleFiberRoot hook of
                                          Some f \<Rightarrow> s2\<lparr>onScheduleFiberRoot := Some f\<rparr>
                                        | None \<Rightarrow> s2)
                                  else s2)
                        in (Inr (),
                            s3\<lparr>onCommitFiberRoot := hook_onCommitFiberRoot hook,
                               onCommitFiberUnmount := hook_onCommitFiberUnmount hook\<rparr>))))
                 (\<lambda>err s1.
                    (Inr (),
                     if DEV env
                     then log_error ''React instrumentation encountered an error: %s.'' err s1
                     else s1)))
              (\<lambda>_ s1. (Inr True, s1)) s)"

definition onScheduleRoot ::
  "'w devtools_env \<Rightarrow> fiber_root \<Rightarrow> jsval \<Rightarrow> 'w devtools_state
     \<Rightarrow> (jsval + unit) \<times> 'w devtools_state" where
  "onScheduleRoot env fiberRoot children s =
     (if DEV env then
        (case onScheduleFiberRoot s of
           Some callback \<Rightarrow>
             try_catch
               (call_out (callback (ScheduleFiberRoot (rendererID s) fiberRoot children)))
               (\<lambda>err s1.
                  if DEV env \<and> \<not> hasLoggedError s1
                  then (Inr (),
                        log_error ''React instrumentation encountered an error: %s'' err
                          (s1\<lparr>hasLoggedError := True\<rparr>))
                  else (Inr (), s1))
               s
         | None \<Rightarrow> (Inr (), s))
      else (Inr (), s))"

definition onCommitRoot ::
  "'w devtools_env \<Rightarrow> fiber_root \<Rightarrow> nat \<Rightarrow> 'w devtools_state
     \<Rightarrow> (jsval + unit) \<times> 'w devtools_state" where
  "onCommitRoot env fiberRoot expirationTime' s =
     (case onCommitFiberRoot s of
        Some callback \<Rightarrow>
          try_catch
            (\<lambda>s0.
               (let didError = ((current_effectTag fiberRoot AND DidCapture env) = DidCapture env) in
                if enableProfilerTimer env then
                  and_then (call_out (getCurrentTime env))
                    (\<lambda>currentTime.
                       and_then
                         (call_out (inferPriorityFromExpirationTime env currentTime
                                      expirationTime'))
                         (\<lambda>priorityLevel s1.
                            call_out (callback (CommitFiberRoot (rendererID s1) fiberRoot
                                                  (PriorityLevel priorityLevel) didError)) s1))
                    s0
                else
                  call_out (callback (CommitFiberRoot (rendererID s0) fiberRoot
                                        PriorityUndefined didError)) s0))
            (\<lambda>err s1.
               if DEV env then
                 (if \<not> hasLoggedError s1
                  then (Inr (),
                        log_error ''React instrumentation encountered an error: %s'' err
                          (s1\<lparr>hasLoggedError := True\<rparr>))
                  else (Inr (), s1))
               else (Inr (), s1))
            s
      | None \<Rightarrow> (Inr (), s))"

definition onCommitUnmount ::
  "'w devtools_env \<Rightarrow> nat \<Rightarrow> 'w devtools_state \<Rightarrow> (jsval + unit) \<times> 'w devtools_state" where
  "onCommitUnmount env fiber s =
     (case onCommitFiberUnmount s of
        Some callback \<Rightarrow>
          try_catch
            (call_out (callback (CommitFiberUnmount (rendererID s) fiber)))
            (\<lambda>err s1.
               if DEV env then
                 (if \<not> hasLoggedError s1
                  then (Inr (),
                        log_error ''React instrumentation encountered an error: %s'' err
                          (s1\<lparr>hasLoggedError := True\<rparr>))
                  else (Inr (), s1))
               else (Inr (), s1))
            s
      | None \<Rightarrow> (Inr (), s))"

text \<open>
  A session: the calls a renderer makes into the module, in order. A call that throws
  would end the session there.
\<close>

datatype 'w devtools_event =
    InjectInternals "'w global_hook option" jsval
  | OnScheduleRoot fiber_root jsval
  | OnCommitRoot fiber_root nat
  | OnCommitUnmount nat

fun devtools_step ::
  "'w devtools_env \<Rightarrow> 'w devtools_event \<Rightarrow> 'w devtools_state
     \<Rightarrow> (jsval + unit) \<times> 'w devtools_state" where
  "devtools_step env (InjectInternals global_hook internals) s =
     (case injectInternals env global_hook internals s of
        (Inl err, s') \<Rightarrow> (Inl err, s')
      | (Inr _, s') \<Rightarrow> (Inr (), s'))"
| "devtools_step env (OnScheduleRoot fiberRoot children) s = onScheduleRoot env fiberRoot children s"
| "devtools_step env (OnCommitRoot fiberRoot t) s = onCommitRoot env fiberRoot t s"
| "devtools_step env (OnCommitUnmount fiber) s = onCommitUnmount env fiber s"

fun devtools_session ::
  "'w devtools_env \<Rightarrow> 'w devtools_event list \<Rightarrow> 'w devtools_state
     \<Rightarrow> (jsval + unit) \<times> 'w devtools_state" where
  "devtools_session env [] s = (Inr (), s)"
| "devtools_session env (e # es) s =
     (case devtools_step env e s of
        (Inl err, s') \<Rightarrow> (Inl err, s')
      | (Inr _, s') \<Rightarrow> devtools_session env es s')"

text \<open>The \<open>console.error\<close> calls that the three wrappers make.\<close>

definition wrapper_errors :: "'w devtools_state \<Rightarrow> (string \<times> jsval) list" where
  "wrapper_errors s =
     filter (\<lambda>(format, err). format = ''React instrumentation encountered an error: %s'')
       (console_error s)"

text \<open>What a call out of the module leaves alone: the error flag and the console.\<close>

definition module_kept :: "'w devtools_state \<Rightarrow> 'w devtools_state \<Rightarrow> bool" where
  "module_kept s s' = (hasLoggedError s' = hasLoggedError s \<and> console_error s' = console_error s)"

text \<open>
  The wrappers have written to the console at most once, and not at all while the flag
  is unset.
\<close>

definition logged_once :: "'w devtools_state \<Rightarrow> bool" where
  "logged_once s =
     (length (wrapper_errors s) \<le> 1 \<and> (\<not> hasLoggedError s \<longrightarrow> wrapper_errors s = []))"

text \<open>
  A session for the examples: DevTools is present, a development build, and every callback
  of the hook throws.
\<close>

definition throwing_hook :: "unit global_hook" where
  "throwing_hook =
     \<lparr>isDisabled = False, supportsFiber = True,
      inject = (\<lambda>internals w. (Inr (JNum (Fin 1)), w)),
      hook_onScheduleFiberRoot = Some (\<lambda>c w. (Inl (JStr ''schedule''), w)),
      hook_onCommitFiberRoot = Some (\<lambda>c w. (Inl (JStr ''commit''), w)),
      hook_onCommitFiberUnmount = Some (\<lambda>c w. (Inl (JStr ''unmount''), w))\<rparr>"

definition example_devtools_env :: "unit devtools_env" where
  "example_devtools_env =
     \<lparr>DEV = True, enableProfilerTimer = True, DidCapture = 64,
      getCurrentTime = (\<lambda>w. (Inr 10, w)),
      inferPriorityFromExpirationTime = (\<lambda>currentTime t w. (Inr 3, w))\<rparr>"

definition example_session :: "unit devtools_event list" where
  "example_session =
     [InjectInternals (Some throwing_hook) JNull,
      OnCommitUnmount 4,
      OnCommitRoot \<lparr>current_effectTag = 0\<rparr> 1,
      OnScheduleRoot \<lparr>current_effectTag = 0\<rparr> JNull]"

section \<open>installHook\<close>

text \<open>
  The hook object that \<open>installHook\<close> builds, by its data members as they are when it is
  built; its function members are closures over these.
\<close>

record hook_settings =
  appendComponentStack :: bool
  breakOnConsoleErrors :: bool
  showInlineWarningsAndErrors :: bool
  hideConsoleLogsInStrictMode :: bool

record devtools_hook =
  hook_rendererInterfaces :: "nat \<rightharpoonup> jsval"
  hook_listeners :: "string \<rightharpoonup> nat list"
  hook_backends :: "string \<rightharpoonup> jsval"
  hook_renderers :: "nat \<rightharpoonup> jsval"
  hook_supportsFiber :: bool
  hook_settings :: hook_settings
  hook_workTagMapByRendererId :: "nat \<rightharpoonup> jsval"

datatype target_value = HookObject devtools_hook | OtherValue jsval

record property =
  configurable :: bool
  enumerable :: bool
  getter :: target_value

text \<open>
  The argument \<open>target\<close> is any value. An object is kept by its own properties, by
  whether it is extensible, and by whether the member \<open>hasOwnProperty\<close> that it inherits
  is the method of \<open>Object.prototype\<close> (an object made by \<open>Object.create(null)\<close> has no such
  member, and calling it is a \<open>TypeError\<close>). Reading a member of \<open>null\<close> or \<open>undefined\<close> is a
  \<open>TypeError\<close> as well. Any other value that is not an object behaves here as an object
  with no property of that name that is not extensible: \<open>Object.defineProperty\<close> refuses
  it with a \<open>TypeError\<close>. A target that brings a \<open>hasOwnProperty\<close> function of its own
  making is outside the model.
\<close>

record target_object =
  own_properties :: "string \<rightharpoonup> property"
  extensible :: bool
  inherits_hasOwnProperty :: bool

datatype target = NullOrUndefined | TargetObject target_object

text \<open>
  The console: a method is the native one or an override that wraps what was there
  before (\<open>None\<close> for \<open>undefined\<close>). The module is strict code, so the assignment
  \<open>targetConsole[method] = overrideMethod\<close> is a \<open>TypeError\<close> when the console does not
  take it: the property is read-only, or it is missing and the console is not extensible.
\<close>

datatype console_method = NativeMethod | OverrideMethod "console_method option"

record console_object =
  console_methods :: "string \<rightharpoonup> console_method"
  console_read_only :: "string \<Rightarrow> bool"

text \<open>The name of the global slot.\<close>

definition GLOBAL_HOOK_PROPERTY :: string where
  "GLOBAL_HOOK_PROPERTY = ''__REACT_DEVTOOLS_GLOBAL_HOOK__''"

text \<open>
  The loop of \<open>patchConsoleForErrorsAndWarnings\<close> over the methods to override; it stops
  at the first assignment that throws, with the earlier methods already overridden.
\<close>

fun override_methods :: "string list \<Rightarrow> console_object \<Rightarrow> error option \<times> console_object" where
  "override_methods [] targetConsole = (None, targetConsole)"
| "override_methods (method # methods) targetConsole =
     (let originalMethod = console_methods targetConsole method
      in if console_read_only targetConsole method then (Some TypeError, targetConsole)
         else override_methods methods
                (targetConsole\<lparr>console_methods :=
                   (console_methods targetConsole)(method \<mapsto> OverrideMethod originalMethod)\<rparr>))"

definition patchConsoleForErrorsAndWarnings ::
  "console_object \<Rightarrow> error option \<times> console_object" where
  "patchConsoleForErrorsAndWarnings targetConsole =
     override_methods [''error'', ''trace'', ''warn''] targetConsole"

text \<open>
  \<open>installHook\<close>, with \<open>__DEV__\<close> as its first argument and the console of the module as its
  last. The result is the value returned (\<open>None\<close> for \<open>null\<close>) or the error thrown, with the
  target and the console as the call leaves them.
\<close>

definition installHook ::
  "bool \<Rightarrow> target \<Rightarrow> hook_settings option \<Rightarrow> console_object
     \<Rightarrow> (error + devtools_hook option) \<times> target \<times> console_object" where
  "installHook dev' target injectedSettings targetConsole =
     (case target of
        NullOrUndefined \<Rightarrow> (Inl TypeError, target, targetConsole)
      | TargetObject obj \<Rightarrow>
          if \<not> inherits_hasOwnProperty obj then (Inl TypeError, target, targetConsole)
          else if own_properties obj GLOBAL_HOOK_PROPERTY \<noteq> None then
            (Inr None, target, targetConsole)
          else
            (let settings =
                   (case injectedSettings of
                      Some injected \<Rightarrow> injected
                    | None \<Rightarrow>
                        \<lparr>appendComponentStack = True, breakOnConsoleErrors = False,
                         showInlineWarningsAndErrors = False,
                         hideConsoleLogsInStrictMode = False\<rparr>);
                 hook =
                   \<lparr>hook_rendererInterfaces = Map.empty, hook_listeners = Map.empty,
                    hook_backends = Map.empty, hook_renderers = Map.empty,
                    hook_supportsFiber = True, hook_settings = settings,
                    hook_workTagMapByRendererId = Map.empty\<rparr>
             in case patchConsoleForErrorsAndWarnings targetConsole of
                  (Some err, targetConsole') \<Rightarrow> (Inl err, target, targetConsole')
                | (None, targetConsole') \<Rightarrow>
                    if \<not> extensible obj then (Inl TypeError, target, targetConsole')
                    else
                      (Inr (Some hook),
                       TargetObject
                         (obj\<lparr>own_properties := (own_properties obj)
                            (GLOBAL_HOOK_PROPERTY \<mapsto>
                               \<lparr>configurable = dev', enumerable = False,
                                getter = HookObject hook\<rparr>)\<rparr>),
                       targetConsole')))"

text \<open>
  A window with one property and a native console, for the examples, and the same window
  after \<open>Object.freeze\<close>.
\<close>

definition example_target :: target_object where
  "example_target =
     \<lparr>own_properties =
        [''name'' \<mapsto> \<lparr>configurable = True, enumerable = True, getter = OtherValue (JStr ''w'')\<rparr>],
      extensible = True, inherits_hasOwnProperty = True\<rparr>"

definition frozen_target :: target_object where
  "frozen_target =
     \<lparr>own_properties =
        [''name'' \<mapsto> \<lparr>configurable = False, enumerable = True, getter = OtherValue (JStr ''w'')\<rparr>],
      extensible = False, inherits_hasOwnProperty = True\<rparr>"

definition example_console :: console_object where
  "example_console =
     \<lparr>console_methods =
        [''log'' \<mapsto> NativeMethod, ''error'' \<mapsto> NativeMethod, ''warn'' \<mapsto> NativeMethod],
      console_read_only = (\<lambda>method. False)\<rparr>"

section \<open>ReactDOMFiber: the commit bracket\<close>

text \<open>
  The state the two host callbacks work on: the module's variables \<open>eventsEnabled\<close> and
  \<open>selectionInformation\<close>, and what the two collaborators hold.

  Modelled from the spec: ReactBrowserEventEmitter and ReactInputSelection are not under
  src/. The emitter holds the flag "event dispatch is enabled", which \<open>isEnabled\<close> reads and
  \<open>setEnabled\<close> writes (a value that is not a boolean counts by its truthiness, \<open>null\<close> as
  false). \<open>getSelectionInformation\<close> captures the current focus and selection, and
  \<open>restoreSelection\<close> makes a captured selection current again; handed \<open>null\<close> it reads a
  field of \<open>null\<close> and throws.
\<close>

record 'sel dom_host =
  emitter_enabled :: bool
  current_selection :: 'sel
  eventsEnabled :: "bool option"
  selectionInformation :: "'sel option"

definition isEnabled :: "'sel dom_host \<Rightarrow> bool" where
  "isEnabled h = emitter_enabled h"

definition setEnabled :: "bool option \<Rightarrow> 'sel dom_host \<Rightarrow> 'sel dom_host" where
  "setEnabled enabled h = h\<lparr>emitter_enabled := (case enabled of Some b \<Rightarrow> b | None \<Rightarrow> False)\<rparr>"

definition getSelectionInformation :: "'sel dom_host \<Rightarrow> 'sel" where
  "getSelectionInformation h = current_selection h"

definition restoreSelection ::
  "'sel option \<Rightarrow> 'sel dom_host \<Rightarrow> (error + unit) \<times> 'sel dom_host" where
  "restoreSelection priorSelectionInformation h =
     (case priorSelectionInformation of
        None \<Rightarrow> (Inl TypeError, h)
      | Some info \<Rightarrow> (Inr (), h\<lparr>current_selection := info\<rparr>))"

definition prepareForCommit :: "'sel dom_host \<Rightarrow> 'sel dom_host" where
  "prepareForCommit h =
     (let h1 = h\<lparr>eventsEnabled := Some (isEnabled h)\<rparr>;
          h2 = setEnabled (Some False) h1
      in h2\<lparr>selectionInformation := Some (getSelectionInformation h2)\<rparr>)"

definition resetAfterCommit :: "'sel dom_host \<Rightarrow> (error + unit) \<times> 'sel dom_host" where
  "resetAfterCommit h =
     (case restoreSelection (selectionInformation h) h of
        (Inl err, h1) \<Rightarrow> (Inl err, h1)
      | (Inr _, h1) \<Rightarrow>
          (let h2 = h1\<lparr>selectionInformation := None\<rparr>;
               h3 = setEnabled (eventsEnabled h2) h2
           in (Inr (), h3\<lparr>eventsEnabled := None\<rparr>)))"

section \<open>VerticalScrollView\<close>

text \<open>
  A scroll state, over any type of numbers. The module \<open>./utils/scrollState\<close> is not under
  src/ and the spec does not describe it, so its three functions are parameters:
  \<open>clampState\<close> takes the state, \<open>minContentLength\<close>, \<open>maxContentLength\<close> and
  \<open>containerLength\<close>; \<open>translateState\<close> takes the state, \<open>delta\<close> and \<open>containerLength\<close>.
\<close>

record 'n scroll_state =
  scroll_offset :: 'n
  scroll_length :: 'n

record 'n scroll_helpers =
  clampState :: "'n scroll_state \<Rightarrow> 'n \<Rightarrow> 'n \<Rightarrow> 'n \<Rightarrow> 'n scroll_state"
  areScrollStatesEqual :: "'n scroll_state \<Rightarrow> 'n scroll_state \<Rightarrow> bool"
  translateState :: "'n scroll_state \<Rightarrow> 'n \<Rightarrow> 'n \<Rightarrow> 'n scroll_state"

text \<open>
  The view, by what \<open>_setScrollState\<close> and \<open>scrollBy\<close> read and write: the height of its
  frame and of the content view's frame, \<open>_scrollState\<close>, the registered callback (by its
  identity, \<open>None\<close> for \<open>null\<close>), the flag that \<open>setNeedsDisplay\<close> of the base class \<open>View\<close>
  sets, and the calls made to the callback so far, each with its arguments.
\<close>

record 'n vertical_scroll_view =
  frame_height :: 'n
  contentView_frame_height :: 'n
  scrollState :: "'n scroll_state"
  onChangeCallback :: "nat option"
  needsDisplay :: bool
  onChange_calls :: "(nat \<times> 'n scroll_state \<times> 'n) list"

definition setNeedsDisplay :: "'n vertical_scroll_view \<Rightarrow> 'n vertical_scroll_view" where
  "setNeedsDisplay v = v\<lparr>needsDisplay := True\<rparr>"

definition setScrollState ::
  "'n scroll_helpers \<Rightarrow> 'n scroll_state \<Rightarrow> 'n vertical_scroll_view
     \<Rightarrow> bool \<times> 'n vertical_scroll_view" where
  "setScrollState helpers proposedState v =
     (let height = contentView_frame_height v;
          clampedState = clampState helpers proposedState height height (frame_height v)
      in if \<not> areScrollStatesEqual helpers clampedState (scrollState v) then
           (let v1 = v\<lparr>scrollState :=
                        (scrollState v)\<lparr>scroll_offset := scroll_offset clampedState\<rparr>\<rparr>;
                v2 = v1\<lparr>scrollState :=
                         (scrollState v1)\<lparr>scroll_length := scroll_length clampedState\<rparr>\<rparr>;
                v3 = setNeedsDisplay v2;
                v4 = (case onChangeCallback v3 of
                        Some callback \<Rightarrow>
                          v3\<lparr>onChange_calls :=
                               onChange_calls v3 @ [(callback, clampedState, frame_height v3)]\<rparr>
                      | None \<Rightarrow> v3)
            in (True, v4))
         else (False, v))"

definition scrollBy ::
  "('n::uminus) scroll_helpers \<Rightarrow> 'n \<Rightarrow> 'n vertical_scroll_view
     \<Rightarrow> bool \<times> 'n vertical_scroll_view" where
  "scrollBy helpers deltaY v =
     (let newState = translateState helpers (scrollState v) (- deltaY) (frame_height v)
      in setScrollState helpers newState v)"

text \<open>
  Helpers for the examples, over the integers: equality by fields, the offset kept
  between \<open>containerLength - length\<close> and 0, the length set to the larger of the content
  and the container.
\<close>

definition example_helpers :: "int scroll_helpers" where
  "example_helpers =
     \<lparr>clampState = (\<lambda>st minLen maxLen container.
        (let len = max maxLen container
         in \<lparr>scroll_offset = min 0 (max (container - len) (scroll_offset st)),
             scroll_length = len\<rparr>)),
      areScrollStatesEqual = (\<lambda>a b. scroll_offset a = scroll_offset b \<and>
                                     scroll_length a = scroll_length b),
      translateState = (\<lambda>st delta container.
        \<lparr>scroll_offset = min 0 (max (container - scroll_length st) (scroll_offset st + delta)),
         scroll_length = scroll_length st\<rparr>)\<rparr>"

definition example_view :: "int vertical_scroll_view" where
  "example_view =
     \<lparr>frame_height = 50, contentView_frame_height = 100,
      scrollState = \<lparr>scroll_offset = 0, scroll_length = 100\<rparr>,
      onChangeCallback = Some 1, needsDisplay = False, onChange_calls = []\<rparr>"

text \<open>
  A view whose \<open>_scrollState\<close> is still the one the constructor sets, offset 0 and length
  0, over a content view that has been laid out.
\<close>

definition new_view :: "int vertical_scroll_view" where
  "new_view =
     \<lparr>frame_height = 50, contentView_frame_height = 100,
      scrollState = \<lparr>scroll_offset = 0, scroll_length = 0\<rparr>,
      onChangeCallback = Some 1, needsDisplay = False, onChange_calls = []\<rparr>"

section \<open>Properties\<close>

lemma num_object_is:
  "((num_strict_eq a b \<and>
       (\<not> num_strict_eq a (Fin 0) \<or> num_strict_eq (reciprocal a) (reciprocal b))) \<or>
    (\<not> num_strict_eq a a \<and> \<not> num_strict_eq b b))
   = (b = a)"
proof (cases a)
  case NaN
  then show ?thesis by (cases b) (simp_all add: num_strict_eq_def is_zero_def)
next
  case PosInf
  then show ?thesis by (cases b) (simp_all add: num_strict_eq_def is_zero_def)
next
  case NegInf
  then show ?thesis by (cases b) (simp_all add: num_strict_eq_def is_zero_def)
next
  case NegZero
  then show ?thesis by (cases b) (simp_all add: num_strict_eq_def is_zero_def)
next
  case (Fin q)
  then show ?thesis by (cases b) (auto simp add: num_strict_eq_def is_zero_def)
qed

lemma object_is_inlined:
  "((strict_eq oldValue newValue \<and>
       (\<not> strict_eq oldValue (JNum (Fin 0)) \<or>
          strict_eq (one_over oldValue) (one_over newValue))) \<or>
    (\<not> strict_eq oldValue oldValue \<and> \<not> strict_eq newValue newValue))
   = (newValue = oldValue)"
proof (cases "\<exists>a b. oldValue = JNum a \<and> newValue = JNum b")
  case True
  then obtain a b where "oldValue = JNum a" "newValue = JNum b" by blast
  then show ?thesis
    using num_object_is [of a b] by (simp add: one_over_def)
next
  case False
  then show ?thesis
    by (cases oldValue; cases newValue; auto)
qed

lemma to_int32_max: "to_int32 (Fin MAX_SIGNED_31_BIT_INT) = 1073741823"
  by (simp add: MAX_SIGNED_31_BIT_INT_def wrap_int32_def)

subsection \<open>calculateChangedBits\<close>

lemma calculateChangedBits_unfold:
  "calculateChangedBits context newValue oldValue =
     (if newValue = oldValue then 0
      else to_int32 (case ctx_calculateChangedBits context of
                       Some f \<Rightarrow> f oldValue newValue
                     | None \<Rightarrow> Fin MAX_SIGNED_31_BIT_INT))"
  by (simp only: calculateChangedBits_def object_is_inlined Let_def)

text \<open>
  C4 as stated fails: a context with a comparator of its own can return 0 for two values
  that are not \<open>Object.is\<close>-equal, here 1 and 2, and also 0 and -0.
\<close>

theorem calculateChangedBits_comparator_zero:
  "calculateChangedBits (createContext True JNull (Some (\<lambda>a b. Fin 0)))
     (JNum (Fin 1)) (JNum (Fin 2)) = 0 \<and>
   JNum (Fin 1) \<noteq> JNum (Fin 2) \<and>
   calculateChangedBits (createContext True JNull (Some (\<lambda>a b. Fin 0)))
     (JNum (Fin 0)) (JNum NegZero) = 0"
  by (simp add: calculateChangedBits_def createContext_def num_strict_eq_def is_zero_def
      one_over_def wrap_int32_def)

text \<open>
  C4, amended. \<open>calculateChangedBits\<close> returns 0 whenever the two values are
  \<open>Object.is\<close>-equal (the same value, both \<open>NaN\<close> included, \<open>+0\<close> and \<open>-0\<close> told
  apart). For a context without a comparator of its own it returns 0 exactly then, and
  \<open>MAX_SIGNED_31_BIT_INT\<close> otherwise, so for 0 and -0. For a context with a comparator
  and two values that differ it returns the comparator's result, coerced to an int32.
\<close>

theorem calculateChangedBits_object_is:
  "calculateChangedBits context v v = 0 \<and>
   calculateChangedBits context (JNum NaN) (JNum NaN) = 0 \<and>
   (ctx_calculateChangedBits context = None \<longrightarrow>
      ((calculateChangedBits context newValue oldValue = 0) = (newValue = oldValue)) \<and>
      (newValue \<noteq> oldValue \<longrightarrow>
         calculateChangedBits context newValue oldValue = 1073741823) \<and>
      calculateChangedBits context (JNum (Fin 0)) (JNum NegZero) = 1073741823) \<and>
   (\<forall>f. ctx_calculateChangedBits context = Some f \<longrightarrow> newValue \<noteq> oldValue \<longrightarrow>
      calculateChangedBits context newValue oldValue = to_int32 (f oldValue newValue))"
  by (simp add: calculateChangedBits_unfold to_int32_max del: to_int32.simps)

theorem calculateChangedBits_object_is_witness:
  "ctx_calculateChangedBits (createContext False JNull None) = None \<and>
   JNum (Fin 0) \<noteq> JNum NegZero \<and>
   calculateChangedBits (createContext False JNull None) (JNum (Fin 0)) (JNum NegZero)
     = 1073741823 \<and>
   ctx_calculateChangedBits (createContext False JNull (Some (\<lambda>a b. Fin 5)))
     = Some (\<lambda>a b. Fin 5) \<and>
   calculateChangedBits (createContext False JNull (Some (\<lambda>a b. Fin 5)))
     (JNum (Fin 1)) (JNum (Fin 2)) = 5"
proof -
  have a: "ctx_calculateChangedBits (createContext False JNull None) = None"
    by (simp add: createContext_def)
  have b: "ctx_calculateChangedBits (createContext False JNull (Some (\<lambda>a b. Fin 5)))
             = Some (\<lambda>a b. Fin 5)"
    by (simp add: createContext_def)
  have c: "JNum (Fin 1) \<noteq> JNum (Fin 2)" "JNum (Fin 0) \<noteq> JNum NegZero"
    by simp_all
  have d: "to_int32 (Fin 5) = 5"
    by (simp add: wrap_int32_def)
  show ?thesis
    using calculateChangedBits_object_is
            [of "createContext False JNull None" JNull "JNum (Fin 0)" "JNum NegZero"]
          calculateChangedBits_object_is
            [of "createContext False JNull (Some (\<lambda>a b. Fin 5))" JNull
                "JNum (Fin 1)" "JNum (Fin 2)"]
          a b c d
    by simp
qed

subsection \<open>propagateContextChange\<close>

paragraph \<open>The loops compute the walk over the forest\<close>

lemma lower_childExpirationTime_unfold:
  "lower_childExpirationTime r a h =
     (if childExpirationTime (h a) = NoWork \<or> childExpirationTime (h a) > r
      then h(a := (h a)\<lparr>childExpirationTime := r\<rparr>) else h)"
  by (auto simp: lower_childExpirationTime_def lowered_def fun_eq_iff)

lemma lower_expirationTime_unfold:
  "lower_expirationTime r a h =
     (if expirationTime (h a) = NoWork \<or> expirationTime (h a) > r
      then h(a := (h a)\<lparr>expirationTime := r\<rparr>) else h)"
  by (auto simp: lower_expirationTime_def lowered_def fun_eq_iff)

lemma lower_childExpirationTime_fields [simp]:
  "return (lower_childExpirationTime r a h x) = return (h x)"
  "alternate (lower_childExpirationTime r a h x) = alternate (h x)"
  "child (lower_childExpirationTime r a h x) = child (h x)"
  "sibling (lower_childExpirationTime r a h x) = sibling (h x)"
  "tag (lower_childExpirationTime r a h x) = tag (h x)"
  "type (lower_childExpirationTime r a h x) = type (h x)"
  "firstContextDependency (lower_childExpirationTime r a h x) = firstContextDependency (h x)"
  "expirationTime (lower_childExpirationTime r a h x) = expirationTime (h x)"
  "childExpirationTime (lower_childExpirationTime r a h x) =
     (if x = a then lowered r (childExpirationTime (h x)) else childExpirationTime (h x))"
  by (simp_all add: lower_childExpirationTime_def)

lemma return_path_cong:
  "(\<And>x. return (h' x) = return (h x)) \<Longrightarrow> return_path h' p ns = return_path h p ns"
  by (induction ns arbitrary: p) simp_all

lemma ancestors_refine:
  "return_path h node ns \<Longrightarrow>
   propagateContextChange_ancestors r node h = Some (mark_ancestors r ns h)"
proof (induction ns arbitrary: node h)
  case Nil
  then show ?case by (simp add: propagateContextChange_ancestors.simps)
next
  case (Cons n ns)
  then have node: "node = Some n" and rest: "return_path h (return (h n)) ns" by simp_all
  have step: "\<And>h'. (\<And>x. return (h' x) = return (h x)) \<Longrightarrow>
      propagateContextChange_ancestors r (return (h' n)) h' = Some (mark_ancestors r ns h')"
    using rest Cons.IH return_path_cong by metis
  show ?case
  proof (cases "childExpirationTime (h n) = NoWork \<or> childExpirationTime (h n) > r")
    case True
    define h1 where "h1 = lower_childExpirationTime r n h"
    have h1: "h(n := (h n)\<lparr>childExpirationTime := r\<rparr>) = h1"
      using True by (simp add: h1_def lower_childExpirationTime_unfold)
    define h2 where "h2 = on_alternate (lower_childExpirationTime r) n h1"
    have h2: "(case alternate (h n) of
                 Some a \<Rightarrow> if childExpirationTime (h1 a) = NoWork \<or> childExpirationTime (h1 a) > r
                           then h1(a := (h1 a)\<lparr>childExpirationTime := r\<rparr>) else h1
               | None \<Rightarrow> h1) = h2"
      by (simp add: h2_def on_alternate_def h1_def lower_childExpirationTime_unfold
          split: option.splits)
    have "\<And>x. return (h2 x) = return (h x)"
      by (simp add: h2_def on_alternate_def h1_def split: option.splits)
    from step [OF this] show ?thesis
      using True
      by (subst propagateContextChange_ancestors.simps)
         (simp add: node Let_def h1 h2 del: fun_upd_apply, simp add: h2_def h1_def)
  next
    case False
    show ?thesis
    proof (cases "alternate (h n)")
      case None
      then show ?thesis
        using False by (subst propagateContextChange_ancestors.simps) (simp add: node)
    next
      case (Some b)
      show ?thesis
      proof (cases "childExpirationTime (h b) = NoWork \<or> childExpirationTime (h b) > r")
        case F2: False
        then show ?thesis
          using False Some
          by (subst propagateContextChange_ancestors.simps) (simp add: node)
      next
        case T2: True
        define h1 where "h1 = lower_childExpirationTime r b h"
        have h1: "h(b := (h b)\<lparr>childExpirationTime := r\<rparr>) = h1"
          using T2 by (simp add: h1_def lower_childExpirationTime_unfold)
        have "\<And>x. return (h1 x) = return (h x)" by (simp add: h1_def)
        from step [OF this] show ?thesis
          using False Some T2
          by (subst propagateContextChange_ancestors.simps)
             (simp add: node Let_def h1 del: fun_upd_apply, simp add: h1_def)
      qed
    qed
  qed
qed

lemma lower_expirationTime_fields [simp]:
  "return (lower_expirationTime r a h x) = return (h x)"
  "alternate (lower_expirationTime r a h x) = alternate (h x)"
  "child (lower_expirationTime r a h x) = child (h x)"
  "sibling (lower_expirationTime r a h x) = sibling (h x)"
  "tag (lower_expirationTime r a h x) = tag (h x)"
  "type (lower_expirationTime r a h x) = type (h x)"
  "firstContextDependency (lower_expirationTime r a h x) = firstContextDependency (h x)"
  "childExpirationTime (lower_expirationTime r a h x) = childExpirationTime (h x)"
  "expirationTime (lower_expirationTime r a h x) =
     (if x = a then lowered r (expirationTime (h x)) else expirationTime (h x))"
  by (simp_all add: lower_expirationTime_def)

lemma set_return_fields [simp]:
  "return (set_return a p h x) = (if x = a then p else return (h x))"
  "alternate (set_return a p h x) = alternate (h x)"
  "child (set_return a p h x) = child (h x)"
  "sibling (set_return a p h x) = sibling (h x)"
  "tag (set_return a p h x) = tag (h x)"
  "type (set_return a p h x) = type (h x)"
  "firstContextDependency (set_return a p h x) = firstContextDependency (h x)"
  "childExpirationTime (set_return a p h x) = childExpirationTime (h x)"
  "expirationTime (set_return a p h x) = expirationTime (h x)"
  by (simp_all add: set_return_def)

lemma set_return_same: "return (h a) = p \<Longrightarrow> set_return a p h = h"
  by (auto simp: set_return_def fun_eq_iff)

lemma set_return_twice [simp]: "set_return a p (set_return a q h) = set_return a p h"
  by (auto simp: set_return_def fun_eq_iff)

lemma same_links_refl [simp]: "same_links h h"
  by (simp add: same_links_def)

lemma same_links_trans: "same_links h h1 \<Longrightarrow> same_links h1 h2 \<Longrightarrow> same_links h h2"
  by (simp add: same_links_def)

lemma same_links_lower [simp]:
  "same_links h (lower_childExpirationTime r a h)"
  "same_links h (lower_expirationTime r a h)"
  by (simp_all add: same_links_def)

lemma same_links_on_alternate:
  "(\<And>b h. same_links h (f b h)) \<Longrightarrow> same_links h (on_alternate f a h)"
  by (simp add: on_alternate_def split: option.splits)

lemma same_links_mark_ancestors [simp]: "same_links h (mark_ancestors r ns h)"
proof (induction ns arbitrary: h)
  case Nil
  show ?case by simp
next
  case (Cons n ns)
  have 1: "same_links h (on_alternate (lower_childExpirationTime r) n (lower_childExpirationTime r n h))"
    by (rule same_links_trans [OF same_links_lower(1) same_links_on_alternate]) simp
  have 2: "\<And>b. same_links h (lower_childExpirationTime r b h)" by simp
  show ?case
    using same_links_trans [OF 1 Cons.IH] same_links_trans [OF 2 Cons.IH]
    by (auto split: option.splits)
qed

lemma same_links_schedule_update [simp]: "same_links h (schedule_update r f ns h)"
  unfolding schedule_update_def
  by (rule same_links_trans [OF _ same_links_mark_ancestors],
      rule same_links_trans [OF same_links_lower(2) same_links_on_alternate]) simp

lemma same_links_visit_dependencies [simp]:
  "same_links h (visit_dependencies c b r f ns ds h)"
proof (induction ds arbitrary: h)
  case Nil
  show ?case by simp
next
  case (Cons d ds)
  show ?case
    using same_links_trans [OF same_links_schedule_update Cons.IH] Cons.IH
    by simp
qed

lemma same_links_return_path:
  "same_links h h' \<Longrightarrow> return_path h' p ns = return_path h p ns"
  by (rule return_path_cong) (simp add: same_links_def)

lemma schedule_refine:
  assumes "return_path h (return (h f)) ns"
  shows "propagateContextChange_schedule r f h = Some (schedule_update r f ns h)"
proof -
  define h1 where "h1 = lower_expirationTime r f h"
  define h2 where "h2 = on_alternate (lower_expirationTime r) f h1"
  have l: "same_links h h2"
    unfolding h2_def h1_def
    by (rule same_links_trans [OF same_links_lower(2) same_links_on_alternate]) simp
  have e1: "(if expirationTime (h f) = NoWork \<or> expirationTime (h f) > r
             then h(f := (h f)\<lparr>expirationTime := r\<rparr>) else h) = h1"
    by (simp add: h1_def lower_expirationTime_unfold)
  have e2: "(case alternate (h1 f) of
               Some a \<Rightarrow> if expirationTime (h1 a) = NoWork \<or> expirationTime (h1 a) > r
                         then h1(a := (h1 a)\<lparr>expirationTime := r\<rparr>) else h1
             | None \<Rightarrow> h1) = h2"
    by (simp add: h2_def on_alternate_def lower_expirationTime_unfold split: option.splits)
  have "return_path h2 (return (h2 f)) ns"
    using assms l same_links_return_path [OF l] by (simp add: same_links_def)
  from ancestors_refine [OF this, of r] show ?thesis
    unfolding propagateContextChange_schedule_def Let_def e1 e2
    by (simp add: schedule_update_def h2_def h1_def)
qed

lemma dependencies_refine:
  "return_path h (return (h f)) ns \<Longrightarrow>
   propagateContextChange_dependencies c b r f ds h = Some (visit_dependencies c b r f ns ds h)"
proof (induction ds arbitrary: h)
  case Nil
  show ?case by simp
next
  case (Cons d ds)
  have l: "same_links h (schedule_update r f ns h)" by simp
  have "return_path (schedule_update r f ns h) (return (schedule_update r f ns h f)) ns"
    using Cons.prems l same_links_return_path [OF l] by (simp add: same_links_def)
  from Cons.IH [OF this] Cons.IH [OF Cons.prems] show ?case
    by (simp add: schedule_refine [OF Cons.prems] dependency_matches_def)
qed

lemma visit_refine:
  assumes "return_path h (return (h f)) ns"
  shows "propagateContextChange_visit w c b r f h =
           Some (if shields w h f then None else child (h f),
                 visit_dependencies c b r f ns (firstContextDependency (h f)) h)"
proof -
  have l: "same_links h (visit_dependencies c b r f ns (firstContextDependency (h f)) h)"
    by simp
  show ?thesis
    using l
    by (auto simp add: propagateContextChange_visit_def Let_def dependencies_refine [OF assms]
        shields_def same_links_def)
qed

lemma same_shape_refl [simp]: "same_shape h h"
  by (simp add: same_shape_def)

lemma same_shape_trans: "same_shape h h1 \<Longrightarrow> same_shape h1 h2 \<Longrightarrow> same_shape h h2"
  by (simp add: same_shape_def)

lemma same_links_shape: "same_links h h' \<Longrightarrow> same_shape h h'"
  by (simp add: same_links_def same_shape_def)

lemma same_shape_set_return [simp]: "same_shape h (set_return a p h)"
  by (simp add: same_shape_def)

lemma same_shape_forest:
  "same_shape h h' \<Longrightarrow> fiber_forest h' p t = fiber_forest h p t"
  by (induction t arbitrary: p) (simp_all add: same_shape_def)

lemma same_shape_shields: "same_shape h h' \<Longrightarrow> shields w h' a = shields w h a"
  by (simp add: same_shape_def shields_def)

lemma same_shape_walk_forest [simp]: "same_shape h (walk_forest w c b r anc t h)"
proof (induction t arbitrary: h anc)
  case NoFiber
  show ?case by simp
next
  case (Fiber a kids sibs)
  define h0 where "h0 = set_return a (case anc of [] \<Rightarrow> None | p # _ \<Rightarrow> Some p) h"
  define h1 where "h1 = visit_dependencies c b r a anc (firstContextDependency (h0 a)) h0"
  define h2 where "h2 = (if shields w h1 a then h1 else walk_forest w c b r (a # anc) kids h1)"
  have 0: "same_shape h h0" by (simp add: h0_def)
  have 1: "same_shape h0 h1" by (simp add: h1_def same_links_shape)
  have 2: "same_shape h1 h2" by (simp add: h2_def Fiber.IH(1))
  have 3: "same_shape h2 (walk_forest w c b r anc sibs h2)" by (rule Fiber.IH(2))
  have "walk_forest w c b r anc (Fiber a kids sibs) h = walk_forest w c b r anc sibs h2"
    by (simp add: h0_def h1_def h2_def Let_def)
  then show ?case
    using same_shape_trans [OF same_shape_trans [OF same_shape_trans [OF 0 1] 2] 3] by simp
qed

lemma return_walk_forest:
  "x \<notin> set (nodes t) \<Longrightarrow> return (walk_forest w c b r anc t h x) = return (h x)"
proof (induction t arbitrary: h anc)
  case NoFiber
  show ?case by simp
next
  case (Fiber a kids sibs)
  define h0 where "h0 = set_return a (case anc of [] \<Rightarrow> None | p # _ \<Rightarrow> Some p) h"
  define h1 where "h1 = visit_dependencies c b r a anc (firstContextDependency (h0 a)) h0"
  define h2 where "h2 = (if shields w h1 a then h1 else walk_forest w c b r (a # anc) kids h1)"
  from Fiber.prems have x: "x \<noteq> a" "x \<notin> set (nodes kids)" "x \<notin> set (nodes sibs)" by simp_all
  have 0: "return (h0 x) = return (h x)" using x by (simp add: h0_def)
  have "same_links h0 h1" by (simp add: h1_def)
  then have 1: "return (h1 x) = return (h0 x)" by (simp add: same_links_def)
  have 2: "return (h2 x) = return (h1 x)" using Fiber.IH(1) [OF x(2)] by (simp add: h2_def)
  have "walk_forest w c b r anc (Fiber a kids sibs) h = walk_forest w c b r anc sibs h2"
    by (simp add: h0_def h1_def h2_def Let_def)
  then show ?case using Fiber.IH(2) [OF x(3), of anc h2] 0 1 2 by simp
qed

lemma return_path_outside:
  "(\<And>x. x \<in> set ns \<Longrightarrow> return (h' x) = return (h x)) \<Longrightarrow>
   return_path h' p ns = return_path h p ns"
  by (induction ns arbitrary: p) auto

lemma walk_forest_set_return:
  "walk_forest w c b r (p # up) (Fiber a kids sibs) (set_return a (Some p) h) =
   walk_forest w c b r (p # up) (Fiber a kids sibs) h"
  by simp

lemma loop_refine:
  "fiber_forest h (Some a) t \<Longrightarrow> distinct (nodes t @ p # up) \<Longrightarrow> w \<in> set (p # up) \<Longrightarrow>
   return (h a) = Some p \<Longrightarrow> return_path h (Some p) (p # up) \<Longrightarrow>
   propagateContextChange_loop w c b r (Some a) h =
     resume w c b r p (walk_forest w c b r (p # up) t h)"
proof (induction t arbitrary: a h p up)
  case NoFiber
  then show ?case by simp
next
  case (Fiber a' kids sibs)
  from Fiber.prems(1) have a': "a' = a"
    and fk: "fiber_forest h (child (h a)) kids"
    and fs: "fiber_forest h (sibling (h a)) sibs" by simp_all
  from Fiber.prems(2) a' have
    d: "a \<notin> set (nodes kids)" "a \<notin> set (nodes sibs)" "a \<notin> set (p # up)"
       "distinct (nodes kids @ a # p # up)" "distinct (nodes sibs @ p # up)"
       "set (nodes kids) \<inter> set (nodes sibs) = {}"
    by auto
  have aw: "a \<noteq> w" using d(3) Fiber.prems(3) by auto
  define h1 where "h1 = visit_dependencies c b r a (p # up) (firstContextDependency (h a)) h"
  define h2 where "h2 = (if shields w h1 a then h1 else walk_forest w c b r (a # p # up) kids h1)"
  have l1: "same_links h h1" by (simp add: h1_def)
  have s1: "same_shape h h1" by (rule same_links_shape [OF l1])
  have s2: "same_shape h h2"
    by (rule same_shape_trans [OF s1]) (simp add: h2_def)
  have sh: "shields w h1 a = shields w h a" by (rule same_shape_shields [OF s1])
  have wf: "walk_forest w c b r (p # up) (Fiber a kids sibs) h =
              walk_forest w c b r (p # up) sibs h2"
    using Fiber.prems(4) by (simp add: h1_def h2_def Let_def set_return_same)
  have rp1: "return_path h1 (Some p) (p # up)"
    using Fiber.prems(5) same_links_return_path [OF l1, of "Some p" "p # up"] by simp
  have ra1: "return (h1 a) = Some p" using l1 Fiber.prems(4) by (simp add: same_links_def)
  have visit: "propagateContextChange_visit w c b r a h =
                 Some (if shields w h a then None else child (h a), h1)"
    using visit_refine [of h a "p # up" w c b r] Fiber.prems(4,5) by (simp add: h1_def)
  \<comment> \<open>the subtree of \<open>a\<close>\<close>
  have down: "propagateContextChange_loop w c b r (Some a) h = resume w c b r a h2"
  proof (cases "shields w h a \<or> child (h a) = None")
    case True
    then have "h2 = h1"
      using fk sh by (cases kids) (auto simp add: h2_def)
    then show ?thesis
      using True
      by (subst propagateContextChange_loop.simps) (auto simp add: visit resume_def)
  next
    case False
    then obtain k where k: "child (h a) = Some k" and ns: "\<not> shields w h a" by auto
    define h1' where "h1' = set_return k (Some a) h1"
    have up1: "h1(k := (h1 k)\<lparr>return := Some a\<rparr>) = h1'" by (simp add: h1'_def set_return_def)
    from fk k obtain kk ks where kids: "kids = Fiber k kk ks" by (cases kids) auto
    have kn: "k \<notin> set (a # p # up)" using d(4) kids by auto
    have f1: "fiber_forest h1' (Some k) kids"
      using fk k same_shape_forest [OF same_shape_trans [OF s1 same_shape_set_return], of k "Some a" "Some k" kids]
      by (simp add: h1'_def)
    have r1: "return_path h1' (Some a) (a # p # up)"
    proof -
      have "return_path h1' (Some a) (a # p # up) = return_path h1 (Some a) (a # p # up)"
        by (rule return_path_outside) (use kn in \<open>auto simp add: h1'_def\<close>)
      then show ?thesis using rp1 ra1 by simp
    qed
    have "propagateContextChange_loop w c b r (Some k) h1' =
            resume w c b r a (walk_forest w c b r (a # p # up) kids h1')"
      by (rule Fiber.IH(1) [OF f1 d(4) _ _ r1]) (use Fiber.prems(3) in \<open>simp_all add: h1'_def\<close>)
    moreover have "walk_forest w c b r (a # p # up) kids h1' = h2"
      using ns sh by (simp add: h1'_def kids h2_def)
    ultimately show ?thesis
      using k ns
      by (subst propagateContextChange_loop.simps) (simp add: visit up1 del: fun_upd_apply)
  qed
  \<comment> \<open>the siblings of \<open>a\<close>\<close>
  have ra2: "return (h2 a) = Some p"
    using ra1 return_walk_forest [OF d(1), of w c b r "a # p # up" h1] by (simp add: h2_def)
  have rp2: "return_path h2 (Some p) (p # up)"
  proof -
    have "return_path h2 (Some p) (p # up) = return_path h1 (Some p) (p # up)"
    proof (rule return_path_outside)
      fix x assume "x \<in> set (p # up)"
      then have "x \<notin> set (nodes kids)" using d(4) by auto
      from return_walk_forest [OF this, of w c b r "a # p # up" h1]
      show "return (h2 x) = return (h1 x)" by (simp add: h2_def)
    qed
    then show ?thesis using rp1 by simp
  qed
  have sib2: "sibling (h2 a) = sibling (h a)" using s2 by (simp add: same_shape_def)
  have "resume w c b r a h2 = resume w c b r p (walk_forest w c b r (p # up) sibs h2)"
  proof (cases "sibling (h a)")
    case None
    then have "sibs = NoFiber" using fs by (cases sibs) auto
    then show ?thesis
      using None sib2 aw ra2
      by (simp add: resume_def propagateContextChange_next.simps [of w "Some a"])
  next
    case (Some s)
    from fs Some obtain sk ss where sibs: "sibs = Fiber s sk ss" by (cases sibs) auto
    define h2' where "h2' = set_return s (Some p) h2"
    have up2: "h2(s := (h2 s)\<lparr>return := Some p\<rparr>) = h2'" by (simp add: h2'_def set_return_def)
    have sn: "s \<notin> set (p # up)" using d(5) sibs by auto
    have f2: "fiber_forest h2' (Some s) sibs"
      using fs Some same_shape_forest [OF same_shape_trans [OF s2 same_shape_set_return], of s "Some p" "Some s" sibs]
      by (simp add: h2'_def)
    have r2: "return_path h2' (Some p) (p # up)"
    proof -
      have "return_path h2' (Some p) (p # up) = return_path h2 (Some p) (p # up)"
        by (rule return_path_outside) (use sn in \<open>auto simp add: h2'_def\<close>)
      then show ?thesis using rp2 by simp
    qed
    have "propagateContextChange_loop w c b r (Some s) h2' =
            resume w c b r p (walk_forest w c b r (p # up) sibs h2')"
      by (rule Fiber.IH(2) [OF f2 d(5) Fiber.prems(3) _ r2]) (simp add: h2'_def)
    moreover have "walk_forest w c b r (p # up) sibs h2' = walk_forest w c b r (p # up) sibs h2"
      by (simp add: h2'_def sibs)
    ultimately show ?thesis
      using Some sib2 aw ra2
      by (simp add: resume_def propagateContextChange_next.simps [of w "Some a"] up2
          del: fun_upd_apply)
  qed
  with down wf a' show ?case by simp
qed

theorem propagateContextChange_refine:
  assumes "fiber_forest h (child (h w)) t"
    and "distinct (nodes t @ w # up)"
    and "return_path h (return (h w)) up"
  shows "propagateContextChange w c b r h = Some (walk_forest w c b r (w # up) t h)"
proof (cases t)
  case NoFiber
  then show ?thesis
    using assms(1)
    by (simp add: propagateContextChange_def propagateContextChange_loop.simps [of _ _ _ _ None])
next
  case (Fiber a kids sibs)
  with assms(1) have ch: "child (h w) = Some a" by simp
  define h0 where "h0 = set_return a (Some w) h"
  have up0: "h(a := (h a)\<lparr>return := Some w\<rparr>) = h0" by (simp add: h0_def set_return_def)
  have aw: "a \<notin> set (w # up)" using assms(2) Fiber by auto
  have f0: "fiber_forest h0 (Some a) t"
    using assms(1) ch same_shape_forest [OF same_shape_set_return, of a "Some w" h "Some a" t]
    by (simp add: h0_def)
  have r0: "return_path h0 (Some w) (w # up)"
  proof -
    have "return_path h0 (Some w) (w # up) = return_path h (Some w) (w # up)"
      by (rule return_path_outside) (use aw in \<open>auto simp add: h0_def\<close>)
    then show ?thesis using assms(3) by simp
  qed
  have "propagateContextChange_loop w c b r (Some a) h0 =
          resume w c b r w (walk_forest w c b r (w # up) t h0)"
    by (rule loop_refine [OF f0 assms(2) _ _ r0]) (simp_all add: h0_def)
  moreover have "walk_forest w c b r (w # up) t h0 = walk_forest w c b r (w # up) t h"
    by (simp add: h0_def Fiber)
  moreover have "\<And>h'. resume w c b r w h' = Some h'"
    by (simp add: resume_def propagateContextChange_next.simps [of w "Some w"]
        propagateContextChange_loop.simps [of _ _ _ _ None])
  ultimately show ?thesis
    by (simp add: propagateContextChange_def ch up0 del: fun_upd_apply)
qed

paragraph \<open>Time fields are only ever lowered\<close>

lemma lowered_idem [simp]: "lowered r (lowered r e) = lowered r e"
  by (simp add: lowered_def)

lemma lowered_urgent [simp]: "at_least_as_urgent (lowered r e) r"
  by (auto simp add: lowered_def at_least_as_urgent_def)

lemma lowered_fix: "\<not> (e = NoWork \<or> e > r) \<Longrightarrow> lowered r e = e"
  by (simp add: lowered_def)

lemma urgent_if_not_needed: "\<not> (e = NoWork \<or> e > r) \<Longrightarrow> at_least_as_urgent e r"
  by (auto simp add: at_least_as_urgent_def)

lemma step_refl [simp]: "step r e e"
  by (simp add: step_def)

lemma step_lowered [simp]: "step r e (lowered r e)"
  by (simp add: step_def)

lemma step_trans: "step r e e1 \<Longrightarrow> step r e1 e2 \<Longrightarrow> step r e e2"
  by (auto simp add: step_def)

lemma step_then_lowered: "step r e e1 \<Longrightarrow> lowered r e1 = lowered r e"
  by (auto simp add: step_def)

lemma lowered_then_step: "e1 = lowered r e \<Longrightarrow> step r e1 e2 \<Longrightarrow> e2 = lowered r e"
  by (auto simp add: step_def)

lemma step_urgent: "step r e e' \<Longrightarrow> at_least_as_urgent e r \<Longrightarrow> at_least_as_urgent e' r"
  by (auto simp add: step_def)

lemma times_step_refl [simp]: "times_step r h h"
  by (simp add: times_step_def)

lemma times_step_trans: "times_step r h h1 \<Longrightarrow> times_step r h1 h2 \<Longrightarrow> times_step r h h2"
  unfolding times_step_def by (blast intro: step_trans)

lemma times_step_lower [simp]:
  "times_step r h (lower_childExpirationTime r a h)"
  "times_step r h (lower_expirationTime r a h)"
  "times_step r h (set_return a p h)"
  by (simp_all add: times_step_def)

lemma times_step_on_alternate:
  "(\<And>b h. times_step r h (f b h)) \<Longrightarrow> times_step r h (on_alternate f a h)"
  by (simp add: on_alternate_def split: option.splits)

lemma times_step_mark_ancestors [simp]: "times_step r h (mark_ancestors r ns h)"
proof (induction ns arbitrary: h)
  case Nil
  show ?case by simp
next
  case (Cons n ns)
  have 1: "times_step r h (on_alternate (lower_childExpirationTime r) n (lower_childExpirationTime r n h))"
    by (rule times_step_trans [OF times_step_lower(1) times_step_on_alternate]) simp
  have 2: "\<And>b. times_step r h (lower_childExpirationTime r b h)" by simp
  show ?case
    using times_step_trans [OF 1 Cons.IH] times_step_trans [OF 2 Cons.IH]
    by (auto split: option.splits)
qed

lemma times_step_schedule_update [simp]: "times_step r h (schedule_update r f ns h)"
  unfolding schedule_update_def
  by (rule times_step_trans [OF _ times_step_mark_ancestors],
      rule times_step_trans [OF times_step_lower(2) times_step_on_alternate]) simp

lemma times_step_visit_dependencies [simp]:
  "times_step r h (visit_dependencies c b r f ns ds h)"
proof (induction ds arbitrary: h)
  case Nil
  show ?case by simp
next
  case (Cons d ds)
  show ?case
    using times_step_trans [OF times_step_schedule_update Cons.IH] Cons.IH
    by simp
qed

lemma times_step_walk_forest [simp]: "times_step r h (walk_forest w c b r anc t h)"
proof (induction t arbitrary: h anc)
  case NoFiber
  show ?case by simp
next
  case (Fiber a kids sibs)
  define h0 where "h0 = set_return a (case anc of [] \<Rightarrow> None | p # _ \<Rightarrow> Some p) h"
  define h1 where "h1 = visit_dependencies c b r a anc (firstContextDependency (h0 a)) h0"
  define h2 where "h2 = (if shields w h1 a then h1 else walk_forest w c b r (a # anc) kids h1)"
  have 0: "times_step r h h0" by (simp add: h0_def)
  have 1: "times_step r h0 h1" by (simp add: h1_def)
  have 2: "times_step r h1 h2" by (simp add: h2_def Fiber.IH(1))
  have 3: "times_step r h2 (walk_forest w c b r anc sibs h2)" by (rule Fiber.IH(2))
  have "walk_forest w c b r anc (Fiber a kids sibs) h = walk_forest w c b r anc sibs h2"
    by (simp add: h0_def h1_def h2_def Let_def)
  then show ?case
    using times_step_trans [OF times_step_trans [OF times_step_trans [OF 0 1] 2] 3] by simp
qed

text \<open>Scheduling lowers the expiration time of the fiber and of its alternate.\<close>

lemma mark_ancestors_expirationTime [simp]:
  "expirationTime (mark_ancestors r ns h x) = expirationTime (h x)"
proof (induction ns arbitrary: h)
  case Nil
  show ?case by simp
next
  case (Cons n ns)
  show ?case
    by (auto simp add: Cons.IH on_alternate_def split: option.splits)
qed

lemma schedule_update_expirationTime:
  "expirationTime (schedule_update r f ns h f) = lowered r (expirationTime (h f))"
  "alternate (h f) = Some z \<Longrightarrow>
   expirationTime (schedule_update r f ns h z) = lowered r (expirationTime (h z))"
  by (simp_all add: schedule_update_def on_alternate_def split: option.splits)

lemma visit_dependencies_expirationTime:
  assumes "\<exists>d \<in> set ds. dependency_matches c b d"
  shows "expirationTime (visit_dependencies c b r f ns ds h f) = lowered r (expirationTime (h f))"
    and "alternate (h f) = Some z \<Longrightarrow>
         expirationTime (visit_dependencies c b r f ns ds h z) = lowered r (expirationTime (h z))"
proof -
  have "(\<exists>d \<in> set ds. dependency_matches c b d) \<Longrightarrow>
        expirationTime (visit_dependencies c b r f ns ds h f) = lowered r (expirationTime (h f)) \<and>
        (alternate (h f) = Some z \<longrightarrow>
         expirationTime (visit_dependencies c b r f ns ds h z) = lowered r (expirationTime (h z)))"
  proof (induction ds arbitrary: h)
    case Nil
    then show ?case by simp
  next
    case (Cons d ds)
    show ?case
    proof (cases "dependency_matches c b d")
      case True
      define h1 where "h1 = schedule_update r f ns h"
      have t: "times_step r h1 (visit_dependencies c b r f ns ds h1)" by simp
      have alt: "alternate (h1 f) = alternate (h f)"
        using same_links_schedule_update [of h r f ns] by (simp add: h1_def same_links_def)
      have e1: "expirationTime (h1 f) = lowered r (expirationTime (h f))"
        by (simp add: h1_def schedule_update_expirationTime)
      have s1: "\<And>x. step r (expirationTime (h1 x))
                   (expirationTime (visit_dependencies c b r f ns ds h1 x))"
        using t by (simp add: times_step_def)
      have "expirationTime (visit_dependencies c b r f ns ds h1 f) = lowered r (expirationTime (h f))"
        by (rule lowered_then_step [OF e1 s1])
      moreover have "alternate (h f) = Some z \<Longrightarrow>
          expirationTime (visit_dependencies c b r f ns ds h1 z) = lowered r (expirationTime (h z))"
      proof -
        assume "alternate (h f) = Some z"
        then have "expirationTime (h1 z) = lowered r (expirationTime (h z))"
          by (simp add: h1_def schedule_update_expirationTime)
        from lowered_then_step [OF this s1] show ?thesis .
      qed
      ultimately show ?thesis using True by (simp add: h1_def)
    next
      case False
      with Cons.prems have "\<exists>d \<in> set ds. dependency_matches c b d" by simp
      from Cons.IH [OF this, of h] show ?thesis using False by simp
    qed
  qed
  with assms show
    "expirationTime (visit_dependencies c b r f ns ds h f) = lowered r (expirationTime (h f))"
    "alternate (h f) = Some z \<Longrightarrow>
     expirationTime (visit_dependencies c b r f ns ds h z) = lowered r (expirationTime (h z))"
    by simp_all
qed

lemma reached_with_ancestors_shape:
  "same_shape h h' \<Longrightarrow> reached_with_ancestors w h' anc t = reached_with_ancestors w h anc t"
  by (induction t arbitrary: anc) (simp_all add: same_shape_shields)

lemma fiber_matches_shape:
  "same_shape h h' \<Longrightarrow> fiber_matches c b (h' f) = fiber_matches c b (h f)"
  by (simp add: fiber_matches_def same_shape_def)

lemma reached_with_ancestors_subset:
  "(f, ns) \<in> set (reached_with_ancestors w h anc t) \<Longrightarrow>
   f \<in> set (nodes t) \<and> set ns \<subseteq> set (nodes t) \<union> set anc"
proof (induction t arbitrary: anc)
  case NoFiber
  then show ?case by simp
next
  case (Fiber a kids sibs)
  from Fiber.prems consider
      "(f, ns) = (a, anc)"
    | "(f, ns) \<in> set (reached_with_ancestors w h (a # anc) kids)"
    | "(f, ns) \<in> set (reached_with_ancestors w h anc sibs)"
    by (auto split: if_splits)
  then show ?case
  proof cases
    case 1
    then show ?thesis by auto
  next
    case 2
    from Fiber.IH(1) [OF this] show ?thesis by auto
  next
    case 3
    from Fiber.IH(2) [OF this] show ?thesis by auto
  qed
qed

lemma lowered_compose:
  "step r e e1 \<Longrightarrow> e2 = lowered r e1 \<Longrightarrow> step r e2 e3 \<Longrightarrow> e3 = lowered r e"
  by (auto simp add: step_def)

text \<open>Every fiber the walk reaches and that depends on the context is lowered.\<close>

lemma walk_forest_lowers:
  "(f, ns) \<in> set (reached_with_ancestors w h anc t) \<Longrightarrow> fiber_matches c b (h f) \<Longrightarrow>
   expirationTime (walk_forest w c b r anc t h f) = lowered r (expirationTime (h f)) \<and>
   (\<forall>z. alternate (h f) = Some z \<longrightarrow>
        expirationTime (walk_forest w c b r anc t h z) = lowered r (expirationTime (h z)))"
proof (induction t arbitrary: h anc)
  case NoFiber
  then show ?case by simp
next
  case (Fiber a kids sibs)
  define h0 where "h0 = set_return a (case anc of [] \<Rightarrow> None | p # _ \<Rightarrow> Some p) h"
  define h1 where "h1 = visit_dependencies c b r a anc (firstContextDependency (h0 a)) h0"
  define h2 where "h2 = (if shields w h1 a then h1 else walk_forest w c b r (a # anc) kids h1)"
  define h3 where "h3 = walk_forest w c b r anc sibs h2"
  have w: "walk_forest w c b r anc (Fiber a kids sibs) h = h3"
    by (simp add: h0_def h1_def h2_def h3_def Let_def)
  have s0: "same_shape h h0" by (simp add: h0_def)
  have s1: "same_shape h h1"
    by (rule same_shape_trans [OF s0]) (simp add: h1_def same_links_shape)
  have s2: "same_shape h h2"
    by (rule same_shape_trans [OF s1]) (simp add: h2_def)
  have t0: "times_step r h h0" by (simp add: h0_def)
  have t1: "times_step r h0 h1" by (simp add: h1_def)
  have t2: "times_step r h1 h2" by (simp add: h2_def)
  have t3: "times_step r h2 h3" by (simp add: h3_def)
  have t01: "times_step r h h1" by (rule times_step_trans [OF t0 t1])
  have t02: "times_step r h h2" by (rule times_step_trans [OF t01 t2])
  have t13: "times_step r h1 h3" by (rule times_step_trans [OF t2 t3])
  have E: "\<And>h h' x. times_step r h h' \<Longrightarrow> step r (expirationTime (h x)) (expirationTime (h' x))"
    by (simp add: times_step_def)
  have alt0: "\<And>x. alternate (h0 x) = alternate (h x)" by (simp add: h0_def)
  have alt1: "\<And>x. alternate (h1 x) = alternate (h x)" using s1 by (simp add: same_shape_def)
  have alt2: "\<And>x. alternate (h2 x) = alternate (h x)" using s2 by (simp add: same_shape_def)
  from Fiber.prems(1) consider
      (here) "(f, ns) = (a, anc)"
    | (kids) "\<not> shields w h a" "(f, ns) \<in> set (reached_with_ancestors w h (a # anc) kids)"
    | (sibs) "(f, ns) \<in> set (reached_with_ancestors w h anc sibs)"
    by (auto split: if_splits)
  then have "expirationTime (h3 f) = lowered r (expirationTime (h f)) \<and>
    (\<forall>z. alternate (h f) = Some z \<longrightarrow> expirationTime (h3 z) = lowered r (expirationTime (h z)))"
  proof cases
    case here
    then have fa: "f = a" by simp
    have m: "\<exists>d \<in> set (firstContextDependency (h0 a)). dependency_matches c b d"
      using Fiber.prems(2) fa by (simp add: fiber_matches_def h0_def)
    have 1: "expirationTime (h1 a) = lowered r (expirationTime (h0 a))"
      unfolding h1_def by (rule visit_dependencies_expirationTime(1) [OF m])
    have "expirationTime (h3 a) = lowered r (expirationTime (h a))"
      by (rule lowered_compose [OF E [OF t0] 1 E [OF t13]])
    moreover have "expirationTime (h3 z) = lowered r (expirationTime (h z))"
      if "alternate (h a) = Some z" for z
    proof -
      from that have "alternate (h0 a) = Some z" by (simp add: alt0)
      from visit_dependencies_expirationTime(2) [where h = h0 and f = a, OF m this]
      have 2: "expirationTime (h1 z) = lowered r (expirationTime (h0 z))" by (simp add: h1_def)
      show ?thesis by (rule lowered_compose [OF E [OF t0] 2 E [OF t13]])
    qed
    ultimately show ?thesis using fa by simp
  next
    case kids
    have sh: "\<not> shields w h1 a" using kids(1) same_shape_shields [OF s1] by simp
    have "(f, ns) \<in> set (reached_with_ancestors w h1 (a # anc) kids)"
      using kids(2) reached_with_ancestors_shape [OF s1] by simp
    moreover have "fiber_matches c b (h1 f)"
      using Fiber.prems(2) fiber_matches_shape [OF s1] by simp
    ultimately have ih: "expirationTime (h2 f) = lowered r (expirationTime (h1 f))"
      "\<And>z. alternate (h1 f) = Some z \<Longrightarrow> expirationTime (h2 z) = lowered r (expirationTime (h1 z))"
      using Fiber.IH(1) [of h1 "a # anc"] sh by (simp_all add: h2_def)
    have "expirationTime (h3 f) = lowered r (expirationTime (h f))"
      by (rule lowered_compose [OF E [OF t01] ih(1) E [OF t3]])
    moreover have "expirationTime (h3 z) = lowered r (expirationTime (h z))"
      if "alternate (h f) = Some z" for z
      by (rule lowered_compose [OF E [OF t01] ih(2) E [OF t3]]) (simp add: alt1 that)
    ultimately show ?thesis by simp
  next
    case sibs
    have "(f, ns) \<in> set (reached_with_ancestors w h2 anc sibs)"
      using sibs reached_with_ancestors_shape [OF s2] by simp
    moreover have "fiber_matches c b (h2 f)"
      using Fiber.prems(2) fiber_matches_shape [OF s2] by simp
    ultimately have ih: "expirationTime (h3 f) = lowered r (expirationTime (h2 f))"
      "\<And>z. alternate (h2 f) = Some z \<Longrightarrow> expirationTime (h3 z) = lowered r (expirationTime (h2 z))"
      using Fiber.IH(2) [of h2 anc] by (simp_all add: h3_def)
    have "expirationTime (h3 f) = lowered r (expirationTime (h f))"
      by (rule lowered_compose [OF E [OF t02] ih(1)]) simp
    moreover have "expirationTime (h3 z) = lowered r (expirationTime (h z))"
      if "alternate (h f) = Some z" for z
      by (rule lowered_compose [OF E [OF t02] ih(2)]) (simp_all add: alt2 that)
    ultimately show ?thesis by simp
  qed
  then show ?case unfolding w .
qed

text \<open>The walk leaves the return pointers of the fibers it reaches on their parents.\<close>

lemma walk_forest_return_paths:
  "(f, ns) \<in> set (reached_with_ancestors w h (p # up) t) \<Longrightarrow>
   distinct (nodes t @ p # up) \<Longrightarrow> return_path h (Some p) (p # up) \<Longrightarrow>
   return_path (walk_forest w c b r (p # up) t h) (Some f) (f # ns)"
proof (induction t arbitrary: h p up)
  case NoFiber
  then show ?case by simp
next
  case (Fiber a kids sibs)
  define anc where "anc = p # up"
  define h0 where "h0 = set_return a (Some p) h"
  define h1 where "h1 = visit_dependencies c b r a anc (firstContextDependency (h0 a)) h0"
  define h2 where "h2 = (if shields w h1 a then h1 else walk_forest w c b r (a # anc) kids h1)"
  define h3 where "h3 = walk_forest w c b r anc sibs h2"
  have w: "walk_forest w c b r (p # up) (Fiber a kids sibs) h = h3"
    by (simp add: h0_def h1_def h2_def h3_def anc_def Let_def)
  have s0: "same_shape h h0" by (simp add: h0_def)
  have l1: "same_links h0 h1" by (simp add: h1_def)
  have s1: "same_shape h h1"
    by (rule same_shape_trans [OF s0 same_links_shape [OF l1]])
  have s2: "same_shape h h2"
    by (rule same_shape_trans [OF s1]) (simp add: h2_def)
  from Fiber.prems(2) have
    d: "a \<notin> set (nodes kids)" "a \<notin> set (nodes sibs)" "a \<notin> set anc"
       "distinct (nodes kids @ a # anc)" "distinct (nodes sibs @ anc)"
       "set (nodes kids) \<inter> set (nodes sibs) = {}"
       "set (nodes kids) \<inter> set anc = {}" "set (nodes sibs) \<inter> set anc = {}"
    by (auto simp add: anc_def)
  have r2: "\<And>x. x \<notin> set (nodes kids) \<Longrightarrow> return (h2 x) = return (h1 x)"
    by (simp add: h2_def return_walk_forest)
  have r3: "\<And>x. x \<notin> set (nodes sibs) \<Longrightarrow> return (h3 x) = return (h2 x)"
    by (simp add: h3_def return_walk_forest)
  have p0: "return_path h0 (Some a) (a # anc)"
  proof -
    have "return_path h0 (Some p) anc = return_path h (Some p) anc"
      by (rule return_path_outside) (use d(3) in \<open>auto simp add: h0_def\<close>)
    then show ?thesis using Fiber.prems(3) by (simp add: h0_def anc_def)
  qed
  have p1: "return_path h1 (Some a) (a # anc)"
    using p0 same_links_return_path [OF l1, of "Some a" "a # anc"] by simp
  have p2: "return_path h2 (Some a) (a # anc)"
  proof -
    have "return_path h2 (Some a) (a # anc) = return_path h1 (Some a) (a # anc)"
      by (rule return_path_outside) (use d(1,7) r2 in auto)
    then show ?thesis using p1 by simp
  qed
  have p2': "return_path h2 (Some p) (p # up)" using p2 by (simp add: anc_def)
  from Fiber.prems(1) consider
      (here) "(f, ns) = (a, anc)"
    | (kids) "\<not> shields w h a" "(f, ns) \<in> set (reached_with_ancestors w h (a # anc) kids)"
    | (sibs) "(f, ns) \<in> set (reached_with_ancestors w h anc sibs)"
    by (auto simp add: anc_def split: if_splits)
  then have "return_path h3 (Some f) (f # ns)"
  proof cases
    case here
    have "return_path h3 (Some a) (a # anc) = return_path h2 (Some a) (a # anc)"
      by (rule return_path_outside) (use d(2,8) r3 in auto)
    then show ?thesis using p2 here by simp
  next
    case kids
    have sh: "\<not> shields w h1 a" using kids(1) same_shape_shields [OF s1] by simp
    have in1: "(f, ns) \<in> set (reached_with_ancestors w h1 (a # anc) kids)"
      using kids(2) reached_with_ancestors_shape [OF s1] by simp
    have "return_path h2 (Some f) (f # ns)"
      using Fiber.IH(1) [OF in1 d(4) p1] sh by (simp add: h2_def)
    moreover have "return_path h3 (Some f) (f # ns) = return_path h2 (Some f) (f # ns)"
    proof (rule return_path_outside)
      fix x assume "x \<in> set (f # ns)"
      then have "x \<in> set (nodes kids) \<union> set (a # anc)"
        using reached_with_ancestors_subset [OF in1] by auto
      then have "x \<notin> set (nodes sibs)" using d(2,6,8) by auto
      then show "return (h3 x) = return (h2 x)" by (rule r3)
    qed
    ultimately show ?thesis by simp
  next
    case sibs
    have in2: "(f, ns) \<in> set (reached_with_ancestors w h2 (p # up) sibs)"
      using sibs reached_with_ancestors_shape [OF s2] by (simp add: anc_def)
    show ?thesis
      using Fiber.IH(2) [OF in2 _ p2'] d(5) by (simp add: h3_def anc_def)
  qed
  then show ?case unfolding w .
qed

paragraph \<open>What the walk writes to\<close>

lemma untouched_mono: "untouched h S x \<Longrightarrow> T \<subseteq> S \<Longrightarrow> untouched h T x"
  by (auto simp add: untouched_def)

lemma untouched_shape: "same_shape h h' \<Longrightarrow> untouched h' S x = untouched h S x"
  by (simp add: untouched_def same_shape_def)

lemma lower_frame [simp]:
  "x \<noteq> a \<Longrightarrow> lower_childExpirationTime r a h x = h x"
  "x \<noteq> a \<Longrightarrow> lower_expirationTime r a h x = h x"
  "x \<noteq> a \<Longrightarrow> set_return a p h x = h x"
  by (simp_all add: lower_childExpirationTime_def lower_expirationTime_def set_return_def)

lemma on_alternate_frame:
  "alternate (h a) \<noteq> Some x \<Longrightarrow> (\<And>b h. x \<noteq> b \<Longrightarrow> f b h x = h x) \<Longrightarrow>
   on_alternate f a h x = h x"
  by (auto simp add: on_alternate_def split: option.splits)

lemma mark_ancestors_frame:
  "untouched h (set ns) x \<Longrightarrow> mark_ancestors r ns h x = h x"
proof (induction ns arbitrary: h)
  case Nil
  show ?case by simp
next
  case (Cons n ns)
  from Cons.prems have x: "x \<noteq> n" "alternate (h n) \<noteq> Some x" and u: "untouched h (set ns) x"
    by (auto simp add: untouched_def)
  define h2 where "h2 = on_alternate (lower_childExpirationTime r) n (lower_childExpirationTime r n h)"
  have l2: "same_links h h2"
    unfolding h2_def
    by (rule same_links_trans [OF same_links_lower(1) same_links_on_alternate]) simp
  have u2: "untouched h2 (set ns) x"
    using u untouched_shape [OF same_links_shape [OF l2]] by simp
  have e2: "h2 x = h x"
    unfolding h2_def using x by (subst on_alternate_frame) simp_all
  have a: "mark_ancestors r ns h2 x = h x" using Cons.IH [OF u2] e2 by simp
  have b: "mark_ancestors r ns (lower_childExpirationTime r z h) x = h x"
    if "alternate (h n) = Some z" for z
  proof -
    have "z \<noteq> x" using that x(2) by auto
    moreover have "untouched (lower_childExpirationTime r z h) (set ns) x"
      using u untouched_shape [OF same_links_shape [OF same_links_lower(1)]] by simp
    ultimately show ?thesis using Cons.IH [of "lower_childExpirationTime r z h"] by simp
  qed
  show ?case
    using a b by (auto simp add: h2_def split: option.splits)
qed

lemma schedule_update_frame:
  assumes "untouched h (insert f (set ns)) x"
  shows "schedule_update r f ns h x = h x"
proof -
  from assms have x: "x \<noteq> f" "alternate (h f) \<noteq> Some x" and u: "untouched h (set ns) x"
    by (auto simp add: untouched_def)
  define h2 where "h2 = on_alternate (lower_expirationTime r) f (lower_expirationTime r f h)"
  have l2: "same_links h h2"
    unfolding h2_def
    by (rule same_links_trans [OF same_links_lower(2) same_links_on_alternate]) simp
  have u2: "untouched h2 (set ns) x"
    using u untouched_shape [OF same_links_shape [OF l2]] by simp
  have e2: "h2 x = h x"
    unfolding h2_def using x by (subst on_alternate_frame) simp_all
  show ?thesis
    using mark_ancestors_frame [OF u2] e2 by (simp add: schedule_update_def h2_def)
qed

lemma visit_dependencies_frame:
  "untouched h (insert f (set ns)) x \<Longrightarrow> visit_dependencies c b r f ns ds h x = h x"
proof (induction ds arbitrary: h)
  case Nil
  show ?case by simp
next
  case (Cons d ds)
  have "untouched (schedule_update r f ns h) (insert f (set ns)) x"
    using Cons.prems untouched_shape [OF same_links_shape [OF same_links_schedule_update]]
    by simp
  from Cons.IH [OF this] Cons.IH [OF Cons.prems] show ?case
    by (simp add: schedule_update_frame [OF Cons.prems])
qed

lemma reached_with_ancestors_fst:
  "map fst (reached_with_ancestors w h anc t) = reached w h t"
  by (induction t arbitrary: anc) simp_all

lemma reached_Fiber:
  "reached w h (Fiber a kids sibs) =
     a # (if shields w h a then [] else reached w h kids) @ reached w h sibs"
  by simp

lemma reached_shape: "same_shape h h' \<Longrightarrow> reached w h' t = reached w h t"
  by (induction t) (simp_all add: same_shape_shields)

lemma reached_fst:
  "(f, ns) \<in> set (reached_with_ancestors w h anc t) \<Longrightarrow> f \<in> set (reached w h t)"
proof -
  assume "(f, ns) \<in> set (reached_with_ancestors w h anc t)"
  then have "f \<in> set (map fst (reached_with_ancestors w h anc t))" by force
  then show ?thesis by (simp only: reached_with_ancestors_fst)
qed

lemma reached_ancestors:
  "f \<in> set (reached w h t) \<Longrightarrow> \<exists>ns. (f, ns) \<in> set (reached_with_ancestors w h anc t)"
proof -
  assume "f \<in> set (reached w h t)"
  then have "f \<in> set (map fst (reached_with_ancestors w h anc t))"
    by (simp only: reached_with_ancestors_fst)
  then show ?thesis by auto
qed

lemma reached_subset: "x \<in> set (reached w h t) \<Longrightarrow> x \<in> set (nodes t)"
  by (induction t) (auto split: if_splits)

lemma below_subset: "x \<in> set (below P t) \<Longrightarrow> x \<in> set (nodes t)"
  by (induction t) (auto split: if_splits)

lemma below_not_reached:
  "distinct (nodes t) \<Longrightarrow> x \<in> set (below (shields w h) t) \<Longrightarrow> x \<notin> set (reached w h t)"
proof (induction t)
  case NoFiber
  then show ?case by simp
next
  case (Fiber a kids sibs)
  from Fiber.prems(1) have d: "a \<notin> set (nodes kids)" "a \<notin> set (nodes sibs)"
    "set (nodes kids) \<inter> set (nodes sibs) = {}" "distinct (nodes kids)" "distinct (nodes sibs)"
    by auto
  from Fiber.prems(2) consider
      (k1) "shields w h a" "x \<in> set (nodes kids)"
    | (k2) "\<not> shields w h a" "x \<in> set (below (shields w h) kids)"
    | (s) "x \<in> set (below (shields w h) sibs)"
    by (auto split: if_splits)
  then show ?case
  proof cases
    case k1
    then have "x \<noteq> a" "x \<notin> set (nodes sibs)" using d by auto
    then have "x \<notin> set (reached w h sibs)" using reached_subset by blast
    then show ?thesis using k1 \<open>x \<noteq> a\<close> by simp
  next
    case k2
    then have xk: "x \<in> set (nodes kids)" using below_subset by blast
    then have "x \<noteq> a" "x \<notin> set (nodes sibs)" using d by auto
    then have "x \<notin> set (reached w h sibs)" using reached_subset by blast
    moreover have "x \<notin> set (reached w h kids)" using Fiber.IH(1) [OF d(4) k2(2)] .
    ultimately show ?thesis using \<open>x \<noteq> a\<close> by simp
  next
    case s
    then have xs: "x \<in> set (nodes sibs)" using below_subset by blast
    then have "x \<noteq> a" "x \<notin> set (nodes kids)" using d by auto
    then have "x \<notin> set (reached w h kids)" using reached_subset by blast
    moreover have "x \<notin> set (reached w h sibs)" using Fiber.IH(2) [OF d(5) s] .
    ultimately show ?thesis using \<open>x \<noteq> a\<close> by simp
  qed
qed

text \<open>The walk writes to the fibers it reaches, to their ancestors, and to the alternates.\<close>

lemma walk_forest_frame:
  "untouched h (set (reached w h t) \<union> set anc) x \<Longrightarrow> walk_forest w c b r anc t h x = h x"
proof (induction t arbitrary: h anc)
  case NoFiber
  show ?case by simp
next
  case (Fiber a kids sibs)
  define h0 where "h0 = set_return a (case anc of [] \<Rightarrow> None | p # _ \<Rightarrow> Some p) h"
  define h1 where "h1 = visit_dependencies c b r a anc (firstContextDependency (h0 a)) h0"
  define h2 where "h2 = (if shields w h1 a then h1 else walk_forest w c b r (a # anc) kids h1)"
  define h3 where "h3 = walk_forest w c b r anc sibs h2"
  have w: "walk_forest w c b r anc (Fiber a kids sibs) h = h3"
    by (simp add: h0_def h1_def h2_def h3_def Let_def)
  have s0: "same_shape h h0" by (simp add: h0_def)
  have s1: "same_shape h h1"
    by (rule same_shape_trans [OF s0]) (simp add: h1_def same_links_shape)
  have s2: "same_shape h h2"
    by (rule same_shape_trans [OF s1]) (simp add: h2_def)
  note u = Fiber.prems [unfolded reached.simps]
  from u have xa: "x \<noteq> a" by (simp add: untouched_def)
  have e0: "h0 x = h x" using xa by (simp add: h0_def)
  have "untouched h0 (insert a (set anc)) x"
    unfolding untouched_shape [OF s0] by (rule untouched_mono [OF u]) auto
  then have e1: "h1 x = h0 x" unfolding h1_def by (rule visit_dependencies_frame)
  have e2: "h2 x = h1 x"
  proof (cases "shields w h a")
    case True
    then show ?thesis using same_shape_shields [OF s1] by (simp add: h2_def)
  next
    case False
    have "untouched h1 (set (reached w h1 kids) \<union> set (a # anc)) x"
      unfolding untouched_shape [OF s1] reached_shape [OF s1]
      by (rule untouched_mono [OF u]) (use False in auto)
    from Fiber.IH(1) [OF this] show ?thesis
      using False same_shape_shields [OF s1] by (simp add: h2_def)
  qed
  have "untouched h2 (set (reached w h2 sibs) \<union> set anc) x"
    unfolding untouched_shape [OF s2] reached_shape [OF s2]
    by (rule untouched_mono [OF u]) auto
  from Fiber.IH(2) [OF this] have e3: "h3 x = h2 x" by (simp add: h3_def)
  show ?case unfolding w using e0 e1 e2 e3 by simp
qed

lemma walk_forest_below_shield:
  assumes "distinct (nodes t @ anc)"
    and "alternates_outside h (set (nodes t) \<union> set anc)"
    and "x \<in> set (below (shields w h) t)"
  shows "walk_forest w c b r anc t h x = h x"
proof (rule walk_forest_frame)
  from assms(1) have d: "distinct (nodes t)" "set (nodes t) \<inter> set anc = {}" by auto
  have xt: "x \<in> set (nodes t)" using assms(3) below_subset by blast
  have 1: "x \<notin> set (reached w h t)" using below_not_reached [OF d(1) assms(3)] .
  have 2: "x \<notin> set anc" using xt d(2) by blast
  have 3: "alternate (h y) \<noteq> Some x" if "y \<in> set (reached w h t) \<union> set anc" for y
  proof -
    from that have "y \<in> set (nodes t) \<union> set anc" using reached_subset [of y w h t] by blast
    with assms(2) have "case alternate (h y) of Some z \<Rightarrow> z \<notin> set (nodes t) \<union> set anc
                        | None \<Rightarrow> True"
      unfolding alternates_outside_def by blast
    with xt show ?thesis by (cases "alternate (h y)") auto
  qed
  show "untouched h (set (reached w h t) \<union> set anc) x"
    unfolding untouched_def using 1 2 3 by blast
qed

paragraph \<open>Summarized child expiration times\<close>

lemma chain_summarized_urgent:
  "chain_summarized r h (n # ns) =
     ((urgent r h n \<longrightarrow> (\<forall>m \<in> set ns. urgent r h m)) \<and> chain_summarized r h ns)"
  by (simp add: urgent_def)

lemma chain_cong:
  "(\<And>m. m \<in> set ns \<Longrightarrow> childExpirationTime (h' m) = childExpirationTime (h m)) \<Longrightarrow>
   chain_summarized r h' ns = chain_summarized r h ns"
  by (induction ns) simp_all

lemma chain_all_urgent: "(\<And>n. n \<in> set ns \<Longrightarrow> urgent r h n) \<Longrightarrow> chain_summarized r h ns"
  by (induction ns) (simp_all add: urgent_def)

lemma urgent_step: "times_step r h h' \<Longrightarrow> urgent r h n \<Longrightarrow> urgent r h' n"
  unfolding urgent_def times_step_def by (blast intro: step_urgent)

lemma alternates_outsideD:
  "alternates_outside h B \<Longrightarrow> y \<in> B \<Longrightarrow> alternate (h y) = Some z \<Longrightarrow> z \<notin> B"
  by (auto simp add: alternates_outside_def split: option.splits)

lemma alternates_outside_shape:
  "same_shape h h' \<Longrightarrow> alternates_outside h' B = alternates_outside h B"
  by (simp add: alternates_outside_def same_shape_def)

text \<open>Within a set whose alternates lie outside it, only members touch members.\<close>

lemma untouched_inside:
  "alternates_outside h B \<Longrightarrow> S \<subseteq> B \<Longrightarrow> x \<in> B \<Longrightarrow> x \<notin> S \<Longrightarrow> untouched h S x"
  unfolding untouched_def using alternates_outsideD by blast

lemma mark_ancestors_summarizes:
  "chain_summarized r h ns \<Longrightarrow> distinct ns \<Longrightarrow> alternates_outside h B \<Longrightarrow> set ns \<subseteq> B \<Longrightarrow>
   n \<in> set ns \<Longrightarrow> urgent r (mark_ancestors r ns h) n"
proof (induction ns arbitrary: h n)
  case Nil
  then show ?case by simp
next
  case (Cons a ns)
  from Cons.prems have c: "urgent r h a \<Longrightarrow> (\<forall>m \<in> set ns. urgent r h m)"
    and cs: "chain_summarized r h ns" and d: "a \<notin> set ns" "distinct ns"
    and B: "a \<in> B" "set ns \<subseteq> B"
    by (simp_all add: urgent_def)
  note o = Cons.prems(3)
  have ua: "\<And>h'. same_shape h h' \<Longrightarrow> untouched h' (set ns) a"
    using untouched_inside [OF _ B(2) B(1) d(1)] alternates_outside_shape o by blast
  show ?case
  proof (cases "childExpirationTime (h a) = NoWork \<or> childExpirationTime (h a) > r")
    case True
    define h1 where "h1 = lower_childExpirationTime r a h"
    define h2 where "h2 = on_alternate (lower_childExpirationTime r) a h1"
    have s2: "same_shape h h2"
      unfolding h2_def h1_def
      by (rule same_links_shape,
          rule same_links_trans [OF same_links_lower(1) same_links_on_alternate]) simp
    have m: "mark_ancestors r (a # ns) h = mark_ancestors r ns h2"
      using True by (simp add: h2_def h1_def)
    have in_B: "h2 x = h1 x" if "x \<in> B" for x
      unfolding h2_def
    proof (rule on_alternate_frame)
      show "alternate (h1 a) \<noteq> Some x"
        using alternates_outsideD [OF o B(1), of x] that by (auto simp add: h1_def)
    qed simp
    have same: "childExpirationTime (h2 m) = childExpirationTime (h m)" if "m \<in> set ns" for m
      using that in_B [of m] B(2) d(1) by (auto simp add: h1_def)
    have "chain_summarized r h2 ns = chain_summarized r h ns"
      by (rule chain_cong) (rule same)
    with cs have cs2: "chain_summarized r h2 ns" by simp
    have o2: "alternates_outside h2 B" using o alternates_outside_shape [OF s2] by simp
    have ih: "\<And>m. m \<in> set ns \<Longrightarrow> urgent r (mark_ancestors r ns h2) m"
      by (rule Cons.IH [OF cs2 d(2) o2 B(2)])
    have "mark_ancestors r ns h2 a = h2 a"
      by (rule mark_ancestors_frame [OF ua [OF s2]])
    then have "urgent r (mark_ancestors r ns h2) a"
      using in_B [OF B(1)] by (simp add: urgent_def h1_def)
    with ih Cons.prems(5) show ?thesis unfolding m by auto
  next
    case False
    then have u: "urgent r h a" by (simp add: urgent_def urgent_if_not_needed)
    show ?thesis
    proof (cases "\<exists>z. alternate (h a) = Some z \<and>
                      (childExpirationTime (h z) = NoWork \<or> childExpirationTime (h z) > r)")
      case True
      then obtain z where z: "alternate (h a) = Some z"
        "childExpirationTime (h z) = NoWork \<or> childExpirationTime (h z) > r" by blast
      define h1 where "h1 = lower_childExpirationTime r z h"
      have s1: "same_shape h h1" by (simp add: h1_def same_links_shape)
      have m: "mark_ancestors r (a # ns) h = mark_ancestors r ns h1"
        using False z by (simp add: h1_def)
      have zB: "z \<notin> B" by (rule alternates_outsideD [OF o B(1) z(1)])
      have in_B: "h1 x = h x" if "x \<in> B" for x
      proof -
        from that zB have "x \<noteq> z" by auto
        then show ?thesis by (simp add: h1_def)
      qed
      have "chain_summarized r h1 ns = chain_summarized r h ns"
        by (rule chain_cong) (use in_B B(2) in auto)
      with cs have cs1: "chain_summarized r h1 ns" by simp
      have o1: "alternates_outside h1 B" using o alternates_outside_shape [OF s1] by simp
      have ih: "\<And>m. m \<in> set ns \<Longrightarrow> urgent r (mark_ancestors r ns h1) m"
        by (rule Cons.IH [OF cs1 d(2) o1 B(2)])
      have "mark_ancestors r ns h1 a = h1 a"
        by (rule mark_ancestors_frame [OF ua [OF s1]])
      then have "urgent r (mark_ancestors r ns h1) a"
        using in_B [OF B(1)] u by (simp add: urgent_def)
      with ih Cons.prems(5) show ?thesis unfolding m by auto
    next
      case F2: False
      then have m: "mark_ancestors r (a # ns) h = h"
        using False by (auto split: option.splits)
      show ?thesis unfolding m using u c Cons.prems(5) by auto
    qed
  qed
qed

lemma schedule_update_childExpirationTime:
  "untouched h (set ns) x \<Longrightarrow>
   childExpirationTime (schedule_update r f ns h x) = childExpirationTime (h x)"
proof -
  assume u: "untouched h (set ns) x"
  define h2 where "h2 = on_alternate (lower_expirationTime r) f (lower_expirationTime r f h)"
  have l2: "same_links h h2"
    unfolding h2_def
    by (rule same_links_trans [OF same_links_lower(2) same_links_on_alternate]) simp
  have u2: "untouched h2 (set ns) x"
    using u untouched_shape [OF same_links_shape [OF l2]] by simp
  have "childExpirationTime (h2 x) = childExpirationTime (h x)"
    by (simp add: h2_def on_alternate_def split: option.splits)
  then show ?thesis
    using mark_ancestors_frame [OF u2] by (simp add: schedule_update_def h2_def)
qed

lemma schedule_update_summarizes:
  assumes "chain_summarized r h ns" "distinct ns" "alternates_outside h B" "set ns \<subseteq> B"
    "n \<in> set ns"
  shows "urgent r (schedule_update r f ns h) n"
proof -
  define h2 where "h2 = on_alternate (lower_expirationTime r) f (lower_expirationTime r f h)"
  have l2: "same_links h h2"
    unfolding h2_def
    by (rule same_links_trans [OF same_links_lower(2) same_links_on_alternate]) simp
  have c: "\<And>x. childExpirationTime (h2 x) = childExpirationTime (h x)"
    by (simp add: h2_def on_alternate_def split: option.splits)
  have "chain_summarized r h2 ns = chain_summarized r h ns"
    by (rule chain_cong) (rule c)
  with assms(1) have cs: "chain_summarized r h2 ns" by simp
  have o: "alternates_outside h2 B"
    using assms(3) alternates_outside_shape [OF same_links_shape [OF l2]] by simp
  show ?thesis
    using mark_ancestors_summarizes [OF cs assms(2) o assms(4,5)]
    by (simp add: schedule_update_def h2_def)
qed

lemma visit_dependencies_childExpirationTime:
  "untouched h (set ns) x \<Longrightarrow>
   childExpirationTime (visit_dependencies c b r f ns ds h x) = childExpirationTime (h x)"
proof (induction ds arbitrary: h)
  case Nil
  show ?case by simp
next
  case (Cons d ds)
  have "untouched (schedule_update r f ns h) (set ns) x"
    using Cons.prems untouched_shape [OF same_links_shape [OF same_links_schedule_update]]
    by simp
  from Cons.IH [OF this] Cons.IH [OF Cons.prems] show ?case
    by (simp add: schedule_update_childExpirationTime [OF Cons.prems])
qed

lemma visit_dependencies_none:
  "\<not> (\<exists>d \<in> set ds. dependency_matches c b d) \<Longrightarrow> visit_dependencies c b r f ns ds h = h"
  by (induction ds arbitrary: h) simp_all

lemma visit_dependencies_summarizes:
  "\<exists>d \<in> set ds. dependency_matches c b d \<Longrightarrow> chain_summarized r h ns \<Longrightarrow> distinct ns \<Longrightarrow>
   alternates_outside h B \<Longrightarrow> set ns \<subseteq> B \<Longrightarrow> n \<in> set ns \<Longrightarrow>
   urgent r (visit_dependencies c b r f ns ds h) n"
proof (induction ds arbitrary: h)
  case Nil
  then show ?case by simp
next
  case (Cons d ds)
  show ?case
  proof (cases "dependency_matches c b d")
    case True
    have "urgent r (schedule_update r f ns h) n"
      by (rule schedule_update_summarizes [OF Cons.prems(2-6)])
    then have "urgent r (visit_dependencies c b r f ns ds (schedule_update r f ns h)) n"
      by (rule urgent_step [OF times_step_visit_dependencies])
    then show ?thesis using True by simp
  next
    case False
    with Cons.prems(1) have "\<exists>d \<in> set ds. dependency_matches c b d" by simp
    from Cons.IH [OF this Cons.prems(2-6)] show ?thesis using False by simp
  qed
qed

text \<open>What keeps a chain and a subtree summarized from one store to a later one.\<close>

lemma chain_summarized_kept:
  assumes "chain_summarized r h (pre @ anc)"
    and "\<And>x. x \<in> set pre \<Longrightarrow> childExpirationTime (h' x) = childExpirationTime (h x)"
    and "\<And>x. urgent r h x \<Longrightarrow> urgent r h' x"
    and "(\<forall>x \<in> set anc. childExpirationTime (h' x) = childExpirationTime (h x)) \<or>
         (\<forall>n \<in> set anc. urgent r h' n)"
  shows "chain_summarized r h' (pre @ anc)"
  using assms(1,2)
proof (induction pre)
  case Nil
  from assms(4) show ?case
  proof
    assume "\<forall>x \<in> set anc. childExpirationTime (h' x) = childExpirationTime (h x)"
    then have "chain_summarized r h' anc = chain_summarized r h anc"
      by (intro chain_cong) simp
    then show ?thesis using Nil.prems(1) by simp
  next
    assume "\<forall>n \<in> set anc. urgent r h' n"
    then show ?thesis by (intro chain_all_urgent [of "[] @ anc"]) simp
  qed
next
  case (Cons a pre)
  have 1: "chain_summarized r h' (pre @ anc)"
    using Cons.IH Cons.prems by simp
  have e: "urgent r h' a = urgent r h a" using Cons.prems(2) [of a] by (simp add: urgent_def)
  have "\<forall>m \<in> set (pre @ anc). urgent r h' m" if "urgent r h' a"
  proof
    fix m assume m: "m \<in> set (pre @ anc)"
    from that e have "urgent r h a" by simp
    with Cons.prems(1) m have "urgent r h m" by (simp add: urgent_def)
    then show "urgent r h' m" by (rule assms(3))
  qed
  with 1 show ?case by (simp add: urgent_def)
qed

lemma summarized_kept:
  assumes "\<And>x. urgent r h x \<Longrightarrow> urgent r h' x"
    and "(\<forall>x \<in> set anc. childExpirationTime (h' x) = childExpirationTime (h x)) \<or>
         (\<forall>n \<in> set anc. urgent r h' n)"
  shows "summarized r h (pre @ anc) t \<Longrightarrow>
         (\<And>x. x \<in> set pre \<union> set (nodes t) \<Longrightarrow>
               childExpirationTime (h' x) = childExpirationTime (h x)) \<Longrightarrow>
         summarized r h' (pre @ anc) t"
proof (induction t arbitrary: pre)
  case NoFiber
  then show ?case using chain_summarized_kept [OF _ _ assms] by simp
next
  case (Fiber a kids sibs)
  have "summarized r h' ((a # pre) @ anc) kids"
    by (rule Fiber.IH(1)) (use Fiber.prems in auto)
  moreover have "summarized r h' (pre @ anc) sibs"
    by (rule Fiber.IH(2)) (use Fiber.prems in auto)
  ultimately show ?case by simp
qed

lemma summarized_chain: "summarized r h anc t \<Longrightarrow> chain_summarized r h anc"
  by (induction t arbitrary: anc) simp_all

lemma walk_forest_outside:
  assumes "alternates_outside h B" "set (nodes t) \<union> set anc \<subseteq> B" "x \<in> B"
    "x \<notin> set (nodes t) \<union> set anc"
  shows "walk_forest w c b r anc t h x = h x"
proof (rule walk_forest_frame)
  have "set (reached w h t) \<union> set anc \<subseteq> B"
    using assms(2) reached_subset [of _ w h t] by blast
  moreover have "x \<notin> set (reached w h t) \<union> set anc"
    using assms(4) reached_subset [of x w h t] by blast
  ultimately show "untouched h (set (reached w h t) \<union> set anc) x"
    using untouched_inside [OF assms(1) _ assms(3)] by blast
qed

lemma walk_forest_summarizes:
  "distinct (nodes t @ anc) \<Longrightarrow> set (nodes t) \<union> set anc \<subseteq> B \<Longrightarrow>
   alternates_outside h B \<Longrightarrow> summarized r h anc t \<Longrightarrow>
   ((\<forall>x \<in> B. childExpirationTime (walk_forest w c b r anc t h x) = childExpirationTime (h x)) \<or>
    (\<forall>n \<in> set anc. urgent r (walk_forest w c b r anc t h) n)) \<and>
   (\<forall>f ns n. (f, ns) \<in> set (reached_with_ancestors w h anc t) \<longrightarrow>
      fiber_matches c b (h f) \<longrightarrow> n \<in> set ns \<longrightarrow>
      urgent r (walk_forest w c b r anc t h) n) \<and>
   summarized r (walk_forest w c b r anc t h) anc t"
proof (induction t arbitrary: h anc)
  case NoFiber
  then show ?case by simp
next
  case (Fiber a kids sibs)
  define h0 where "h0 = set_return a (case anc of [] \<Rightarrow> None | p # _ \<Rightarrow> Some p) h"
  define h1 where "h1 = visit_dependencies c b r a anc (firstContextDependency (h0 a)) h0"
  define h2 where "h2 = (if shields w h1 a then h1 else walk_forest w c b r (a # anc) kids h1)"
  define h3 where "h3 = walk_forest w c b r anc sibs h2"
  have w: "walk_forest w c b r anc (Fiber a kids sibs) h = h3"
    by (simp add: h0_def h1_def h2_def h3_def Let_def)
  have s0: "same_shape h h0" by (simp add: h0_def)
  have s1: "same_shape h h1"
    by (rule same_shape_trans [OF s0]) (simp add: h1_def same_links_shape)
  have s2: "same_shape h h2"
    by (rule same_shape_trans [OF s1]) (simp add: h2_def)
  have sh1: "shields w h1 a = shields w h a" by (rule same_shape_shields [OF s1])
  have t0: "times_step r h h0" by (simp add: h0_def)
  have t1: "times_step r h0 h1" by (simp add: h1_def)
  have t2: "times_step r h1 h2" by (simp add: h2_def)
  have t3: "times_step r h2 h3" by (simp add: h3_def)
  have t01: "times_step r h h1" by (rule times_step_trans [OF t0 t1])
  have t02: "times_step r h h2" by (rule times_step_trans [OF t01 t2])
  have t13: "times_step r h1 h3" by (rule times_step_trans [OF t2 t3])
  note o = Fiber.prems(3)
  have o0: "alternates_outside h0 B" using o alternates_outside_shape [OF s0] by simp
  have o1: "alternates_outside h1 B" using o alternates_outside_shape [OF s1] by simp
  have o2: "alternates_outside h2 B" using o alternates_outside_shape [OF s2] by simp
  from Fiber.prems(1) have
    d: "a \<notin> set (nodes kids)" "a \<notin> set (nodes sibs)" "a \<notin> set anc"
       "distinct (nodes kids @ a # anc)" "distinct (nodes sibs @ anc)"
       "set (nodes kids) \<inter> set (nodes sibs) = {}"
       "set (nodes kids) \<inter> set anc = {}" "set (nodes sibs) \<inter> set anc = {}"
       "distinct anc"
    by auto
  from Fiber.prems(2) have
    B: "a \<in> B" "set (nodes kids) \<subseteq> B" "set (nodes sibs) \<subseteq> B" "set anc \<subseteq> B"
       "set (nodes kids) \<union> set (a # anc) \<subseteq> B" "set (nodes sibs) \<union> set anc \<subseteq> B"
    by auto
  from Fiber.prems(4) have sk: "summarized r h (a # anc) kids" and ss: "summarized r h anc sibs"
    by simp_all
  have c0: "\<And>x. childExpirationTime (h0 x) = childExpirationTime (h x)" by (simp add: h0_def)
  have ch0: "chain_summarized r h0 anc"
  proof -
    have "chain_summarized r h0 anc = chain_summarized r h anc"
      by (rule chain_cong) (rule c0)
    then show ?thesis using summarized_chain [OF ss] by simp
  qed
  \<comment> \<open>the visit of \<open>a\<close>\<close>
  have m: "(\<exists>d \<in> set (firstContextDependency (h0 a)). dependency_matches c b d)
             = fiber_matches c b (h a)"
    by (simp add: fiber_matches_def h0_def)
  have V1: "(\<forall>x. childExpirationTime (h1 x) = childExpirationTime (h x)) \<or>
            (\<forall>n \<in> set anc. urgent r h1 n)"
  proof (cases "fiber_matches c b (h a)")
    case True
    then have "\<forall>n \<in> set anc. urgent r h1 n"
      unfolding h1_def
      using visit_dependencies_summarizes [OF _ ch0 d(9) o0 B(4)] m by blast
    then show ?thesis ..
  next
    case False
    then have "h1 = h0" unfolding h1_def using visit_dependencies_none m by blast
    then show ?thesis using c0 by simp
  qed
  have V3: "fiber_matches c b (h a) \<Longrightarrow> \<forall>n \<in> set anc. urgent r h1 n"
    unfolding h1_def
    using visit_dependencies_summarizes [OF _ ch0 d(9) o0 B(4)] m by blast
  have V2: "childExpirationTime (h1 x) = childExpirationTime (h x)"
    if "x \<in> B" "x \<notin> set anc" for x
  proof -
    have "untouched h0 (set anc) x" by (rule untouched_inside [OF o0 B(4) that])
    then show ?thesis
      unfolding h1_def by (simp add: visit_dependencies_childExpirationTime c0)
  qed
  have anc1: "(\<forall>x \<in> set anc. childExpirationTime (h1 x) = childExpirationTime (h x)) \<or>
              (\<forall>n \<in> set anc. urgent r h1 n)"
    using V1 by blast
  \<comment> \<open>the children of \<open>a\<close>\<close>
  have P1: "summarized r h1 ([a] @ anc) kids"
  proof (rule summarized_kept [OF _ anc1])
    show "summarized r h ([a] @ anc) kids" using sk by simp
    show "\<And>x. urgent r h x \<Longrightarrow> urgent r h1 x" by (rule urgent_step [OF t01])
    show "\<And>x. x \<in> set [a] \<union> set (nodes kids) \<Longrightarrow>
            childExpirationTime (h1 x) = childExpirationTime (h x)"
      using V2 B(1,2) d(3,7) by auto
  qed
  have K: "((\<forall>x \<in> B. childExpirationTime (h2 x) = childExpirationTime (h1 x)) \<or>
            (\<forall>n \<in> set anc. urgent r h2 n)) \<and>
           (\<not> shields w h a \<longrightarrow>
              (\<forall>f ns n. (f, ns) \<in> set (reached_with_ancestors w h (a # anc) kids) \<longrightarrow>
                 fiber_matches c b (h f) \<longrightarrow> n \<in> set ns \<longrightarrow> urgent r h2 n)) \<and>
           summarized r h2 (a # anc) kids"
  proof (cases "shields w h a")
    case True
    then have "h2 = h1" by (simp add: h2_def sh1)
    then show ?thesis using True P1 by simp
  next
    case False
    then have e: "h2 = walk_forest w c b r (a # anc) kids h1" by (simp add: h2_def sh1)
    from P1 have "summarized r h1 (a # anc) kids" by simp
    from Fiber.IH(1) [OF d(4) B(5) o1 this, folded e]
    show ?thesis
      using False reached_with_ancestors_shape [OF s1] fiber_matches_shape [OF s1]
      by auto
  qed
  have K2: "childExpirationTime (h2 x) = childExpirationTime (h1 x)"
    if "x \<in> B" "x \<notin> set (nodes kids) \<union> set (a # anc)" for x
    using walk_forest_outside [OF o1 B(5) that] by (simp add: h2_def)
  \<comment> \<open>the siblings of \<open>a\<close>\<close>
  have anc2: "(\<forall>x \<in> set anc. childExpirationTime (h2 x) = childExpirationTime (h x)) \<or>
              (\<forall>n \<in> set anc. urgent r h2 n)"
  proof (cases "\<forall>n \<in> set anc. urgent r h1 n")
    case True
    then show ?thesis using urgent_step [OF t2] by blast
  next
    case False
    with V1 have "\<forall>x. childExpirationTime (h1 x) = childExpirationTime (h x)" by blast
    with K B(4) show ?thesis by (metis subsetD)
  qed
  have P2: "summarized r h2 ([] @ anc) sibs"
  proof (rule summarized_kept [OF _ anc2])
    show "summarized r h ([] @ anc) sibs" using ss by simp
    show "\<And>x. urgent r h x \<Longrightarrow> urgent r h2 x" by (rule urgent_step [OF t02])
    show "childExpirationTime (h2 x) = childExpirationTime (h x)"
      if "x \<in> set [] \<union> set (nodes sibs)" for x
    proof -
      from that have x: "x \<in> B" "x \<notin> set anc" "x \<notin> set (nodes kids) \<union> set (a # anc)"
        using B(3) d(2,6,8) by auto
      show ?thesis using V2 [OF x(1,2)] K2 [OF x(1,3)] by simp
    qed
  qed
  then have "summarized r h2 anc sibs" by simp
  from Fiber.IH(2) [OF d(5) B(6) o2 this, folded h3_def]
  have S: "(\<forall>x \<in> B. childExpirationTime (h3 x) = childExpirationTime (h2 x)) \<or>
           (\<forall>n \<in> set anc. urgent r h3 n)"
    "\<forall>f ns n. (f, ns) \<in> set (reached_with_ancestors w h2 anc sibs) \<longrightarrow>
       fiber_matches c b (h2 f) \<longrightarrow> n \<in> set ns \<longrightarrow> urgent r h3 n"
    "summarized r h3 anc sibs"
    by blast+
  have S2: "childExpirationTime (h3 x) = childExpirationTime (h2 x)"
    if "x \<in> B" "x \<notin> set (nodes sibs) \<union> set anc" for x
    using walk_forest_outside [OF o2 B(6) that] by (simp add: h3_def)
  \<comment> \<open>together\<close>
  have C1: "(\<forall>x \<in> B. childExpirationTime (h3 x) = childExpirationTime (h x)) \<or>
            (\<forall>n \<in> set anc. urgent r h3 n)"
  proof (cases "\<forall>n \<in> set anc. urgent r h2 n")
    case True
    then show ?thesis using urgent_step [OF t3] by blast
  next
    case False
    then have 2: "\<forall>x \<in> B. childExpirationTime (h2 x) = childExpirationTime (h1 x)"
      using K by blast
    from False have "\<not> (\<forall>n \<in> set anc. urgent r h1 n)" using urgent_step [OF t2] by blast
    with V1 have 1: "\<forall>x. childExpirationTime (h1 x) = childExpirationTime (h x)" by blast
    from S(1) show ?thesis
    proof
      assume "\<forall>x \<in> B. childExpirationTime (h3 x) = childExpirationTime (h2 x)"
      with 1 2 show ?thesis by simp
    next
      assume "\<forall>n \<in> set anc. urgent r h3 n"
      then show ?thesis ..
    qed
  qed
  have C3: "urgent r h3 n"
    if "(f, ns) \<in> set (reached_with_ancestors w h anc (Fiber a kids sibs))"
      "fiber_matches c b (h f)" "n \<in> set ns" for f ns n
  proof -
    from that(1) consider
        (here) "(f, ns) = (a, anc)"
      | (kids) "\<not> shields w h a" "(f, ns) \<in> set (reached_with_ancestors w h (a # anc) kids)"
      | (sibs) "(f, ns) \<in> set (reached_with_ancestors w h anc sibs)"
      by (auto split: if_splits)
    then show ?thesis
    proof cases
      case here
      then have "urgent r h1 n" using V3 that(2,3) by auto
      then show ?thesis by (rule urgent_step [OF t13])
    next
      case kids
      then have "urgent r h2 n" using K that(2,3) by blast
      then show ?thesis by (rule urgent_step [OF t3])
    next
      case sibs
      then show ?thesis
        using S(2) that(2,3) reached_with_ancestors_shape [OF s2] fiber_matches_shape [OF s2]
        by auto
    qed
  qed
  have C4: "summarized r h3 ([a] @ anc) kids"
  proof (rule summarized_kept)
    show "summarized r h2 ([a] @ anc) kids" using K by simp
    show "\<And>x. urgent r h2 x \<Longrightarrow> urgent r h3 x" by (rule urgent_step [OF t3])
    show "(\<forall>x \<in> set anc. childExpirationTime (h3 x) = childExpirationTime (h2 x)) \<or>
          (\<forall>n \<in> set anc. urgent r h3 n)"
      using S(1) B(4) by (metis subsetD)
    show "\<And>x. x \<in> set [a] \<union> set (nodes kids) \<Longrightarrow>
            childExpirationTime (h3 x) = childExpirationTime (h2 x)"
      using S2 B(1,2) d(2,3,6,7) by auto
  qed
  show ?case
    unfolding w using C1 C3 C4 S(3) by auto
qed

paragraph \<open>The claims about propagateContextChange\<close>

lemma fiber_subtree_refine:
  "fiber_subtree h w t up \<Longrightarrow>
   propagateContextChange w c b r h = Some (walk_forest w c b r (w # up) t h)"
  unfolding fiber_subtree_def by (blast intro: propagateContextChange_refine)

lemma below_cong:
  "(\<And>a. a \<in> set (nodes t) \<Longrightarrow> P a = Q a) \<Longrightarrow> below P t = below Q t"
  by (induction t) auto

text \<open>
  C1. On a fiber tree in which no provider fiber has a context dependency list,
  \<open>propagateContextChange\<close> returns, and every fiber strictly below a nested provider of
  the same type as the work-in-progress fiber is left exactly as it was: neither its
  expiration time nor anything else of it is written. The hypothesis on the provider
  fibers is a property of the trees this module produces: the only place that writes a
  dependency list is \<open>readContext\<close>, onto the fiber that is being rendered, and rendering
  a provider runs no code that reads a context. The walk relies on it, because it tests
  for a provider only after it has found the dependency list empty.
\<close>

theorem propagateContextChange_stops_at_nested_provider:
  assumes "fiber_subtree h w t up"
    and "\<forall>a \<in> set (nodes t).
           tag (h a) = ContextProvider \<longrightarrow> firstContextDependency (h a) = []"
  shows "\<exists>h'. propagateContextChange w c b r h = Some h' \<and>
              (\<forall>x \<in> set (below (nested_provider w h) t). h' x = h x)"
proof -
  from assms(1) have d: "distinct (nodes t @ w # up)"
    and o: "alternates_outside h (set (nodes t) \<union> set (w # up))"
    by (simp_all add: fiber_subtree_def)
  have "shields w h a = nested_provider w h a" if "a \<in> set (nodes t)" for a
    using assms(2) that by (auto simp add: shields_def nested_provider_def)
  then have e: "below (shields w h) t = below (nested_provider w h) t"
    by (rule below_cong)
  have "walk_forest w c b r (w # up) t h x = h x"
    if "x \<in> set (below (nested_provider w h) t)" for x
    using walk_forest_below_shield [OF d o, of x w c b r] that e by simp
  with fiber_subtree_refine [OF assms(1)] show ?thesis by simp
qed

text \<open>
  C2, amended. On a fiber tree on which the child expiration times are summarized up to
  \<open>renderExpirationTime\<close>, \<open>propagateContextChange\<close> returns, and for every fiber that the
  walk reaches and whose dependency list has a record for the context with
  \<open>(observedBits & changedBits) != 0\<close>: its expiration time, and that of its alternate,
  is \<open>renderExpirationTime\<close> if it was \<open>NoWork\<close> or larger and is unchanged otherwise; its
  return pointers lead to the root, and every fiber on that way has a child expiration
  time at least as urgent as \<open>renderExpirationTime\<close>. The child expiration times are
  summarized afterwards as well.
\<close>

theorem propagateContextChange_marks_and_summarizes:
  assumes "fiber_subtree h w t up" and "summarized r h (w # up) t"
  shows "\<exists>h'. propagateContextChange w c b r h = Some h' \<and>
           (\<forall>f \<in> set (reached w h t). fiber_matches c b (h f) \<longrightarrow>
              expirationTime (h' f) = lowered r (expirationTime (h f)) \<and>
              (\<forall>z. alternate (h f) = Some z \<longrightarrow>
                   expirationTime (h' z) = lowered r (expirationTime (h z))) \<and>
              (\<exists>ns. return_path h' (return (h' f)) ns \<and>
                    (\<forall>n \<in> set ns. at_least_as_urgent (childExpirationTime (h' n)) r))) \<and>
           summarized r h' (w # up) t"
proof -
  define h' where "h' = walk_forest w c b r (w # up) t h"
  from assms(1) have d: "distinct (nodes t @ w # up)"
    and o: "alternates_outside h (set (nodes t) \<union> set (w # up))"
    and p: "return_path h (Some w) (w # up)"
    by (simp_all add: fiber_subtree_def)
  note s = walk_forest_summarizes [OF d subset_refl o assms(2), of w c b, folded h'_def]
  have "expirationTime (h' f) = lowered r (expirationTime (h f)) \<and>
        (\<forall>z. alternate (h f) = Some z \<longrightarrow>
             expirationTime (h' z) = lowered r (expirationTime (h z))) \<and>
        (\<exists>ns. return_path h' (return (h' f)) ns \<and>
              (\<forall>n \<in> set ns. at_least_as_urgent (childExpirationTime (h' n)) r))"
    if f: "f \<in> set (reached w h t)" and m: "fiber_matches c b (h f)" for f
  proof -
    from reached_ancestors [OF f, of "w # up"]
    obtain ns where ns: "(f, ns) \<in> set (reached_with_ancestors w h (w # up) t)" by blast
    have 1: "expirationTime (h' f) = lowered r (expirationTime (h f)) \<and>
             (\<forall>z. alternate (h f) = Some z \<longrightarrow>
                  expirationTime (h' z) = lowered r (expirationTime (h z)))"
      unfolding h'_def by (rule walk_forest_lowers [OF ns m])
    have "return_path h' (Some f) (f # ns)"
      unfolding h'_def by (rule walk_forest_return_paths [OF ns d p])
    then have 2: "return_path h' (return (h' f)) ns" by simp
    have 3: "\<forall>n \<in> set ns. at_least_as_urgent (childExpirationTime (h' n)) r"
      using s ns m by (auto simp add: urgent_def)
    from 1 2 3 show ?thesis by blast
  qed
  moreover have "summarized r h' (w # up) t" using s by blast
  ultimately show ?thesis
    using fiber_subtree_refine [OF assms(1), of c b r] by (simp add: h'_def)
qed

lemma example_fibers_at:
  "example_fibers ds 9 =
     (blank_fiber HostRoot (ComponentType 9))\<lparr>child := Some 4, childExpirationTime := 3\<rparr>"
  "example_fibers ds 4 =
     (blank_fiber ContextProvider (ProviderType 0))
       \<lparr>child := Some 5, return := Some 9, alternate := Some 14\<rparr>"
  "example_fibers ds 5 =
     (blank_fiber ContextConsumer (ComponentType 1))
       \<lparr>sibling := Some 6, alternate := Some 15,
        firstContextDependency :=
          [\<lparr>dep_context = 0, dep_observedBits = Fin MAX_SIGNED_31_BIT_INT\<rparr>]\<rparr>"
  "example_fibers ds 6 =
     (blank_fiber ContextProvider (ProviderType 0))
       \<lparr>child := Some 7, firstContextDependency := ds\<rparr>"
  "example_fibers ds 7 =
     (blank_fiber ContextConsumer (ComponentType 1))
       \<lparr>firstContextDependency :=
          [\<lparr>dep_context = 0, dep_observedBits = Fin MAX_SIGNED_31_BIT_INT\<rparr>]\<rparr>"
  "example_fibers ds 15 =
     (blank_fiber ContextConsumer (ComponentType 1))\<lparr>alternate := Some 5\<rparr>"
  by (simp_all add: example_fibers_def)

lemma example_subtree: "fiber_subtree (example_fibers ds) 4 example_tree [9]"
  by (simp add: fiber_subtree_def example_tree_def example_fibers_at blank_fiber_def
      alternates_outside_def)

lemma example_summarized: "summarized 5 (example_fibers ds) [4, 9] example_tree"
  by (simp add: example_tree_def example_fibers_at blank_fiber_def at_least_as_urgent_def
      NoWork_def)

lemma example_matches:
  "fiber_matches 0 (Fin 1) (example_fibers ds 5)"
  "fiber_matches 0 (Fin 1) (example_fibers ds 7)"
  by (simp_all add: fiber_matches_def dependency_matches_def example_fibers_at
      MAX_SIGNED_31_BIT_INT_def wrap_int32_def)

lemma example_reached:
  "reached 4 (example_fibers []) example_tree = [5, 6]"
  "below (shields 4 (example_fibers [])) example_tree = [7]"
  "below (nested_provider 4 (example_fibers [])) example_tree = [7]"
  by (simp_all add: example_tree_def shields_def nested_provider_def example_fibers_at
      blank_fiber_def)

lemma example_providers:
  "\<forall>a \<in> set (nodes example_tree).
     tag (example_fibers [] a) = ContextProvider \<longrightarrow>
     firstContextDependency (example_fibers [] a) = []"
  by (simp add: example_tree_def example_fibers_at blank_fiber_def)

text \<open>
  The tree Provider(X) > Provider(X) > Consumer of the claim: the consumer 7 below the
  nested provider 6 observes the changed context and keeps its expiration time \<open>NoWork\<close>.
\<close>

theorem propagateContextChange_stops_at_nested_provider_witness:
  "fiber_subtree (example_fibers []) 4 example_tree [9] \<and>
   nested_provider 4 (example_fibers []) 6 \<and>
   7 \<in> set (below (nested_provider 4 (example_fibers [])) example_tree) \<and>
   fiber_matches 0 (Fin 1) (example_fibers [] 7) \<and>
   expirationTime_after (propagateContextChange 4 0 (Fin 1) 5 (example_fibers [])) 7
     = Some NoWork"
proof -
  have 6: "nested_provider 4 (example_fibers []) 6"
    by (simp add: nested_provider_def example_fibers_at blank_fiber_def)
  have 7: "7 \<in> set (below (nested_provider 4 (example_fibers [])) example_tree)"
    by (simp add: example_reached)
  from propagateContextChange_stops_at_nested_provider
         [OF example_subtree [of "[]"] example_providers,
          where c = 0 and b = "Fin 1" and r = 5]
  obtain h' where h': "propagateContextChange 4 0 (Fin 1) 5 (example_fibers []) = Some h'"
    "\<forall>x \<in> set (below (nested_provider 4 (example_fibers [])) example_tree).
       h' x = example_fibers [] x"
    by blast
  from h'(2) 7 have "h' 7 = example_fibers [] 7" by blast
  then have "expirationTime (h' 7) = NoWork"
    by (simp add: example_fibers_at blank_fiber_def)
  with h'(1) 6 7 example_subtree [of "[]"] example_matches(2) [of "[]"] show ?thesis
    by (simp add: expirationTime_after_def)
qed

text \<open>
  C2 as stated fails for a fiber that the walk does not reach: the consumer below the
  nested provider has a matching dependency record and expiration time \<open>NoWork\<close>, and
  keeps it.
\<close>

theorem matching_fiber_below_nested_provider_is_not_marked:
  "fiber_matches 0 (Fin 1) (example_fibers [] 7) \<and>
   expirationTime (example_fibers [] 7) = NoWork \<and>
   expirationTime_after (propagateContextChange 4 0 (Fin 1) 5 (example_fibers [])) 7
     = Some NoWork \<and>
   NoWork \<noteq> 5"
proof -
  have 7: "7 \<in> set (below (shields 4 (example_fibers [])) example_tree)"
    by (simp add: example_reached)
  have d: "distinct (nodes example_tree @ [4, 9])"
    and o: "alternates_outside (example_fibers []) (set (nodes example_tree) \<union> set [4, 9])"
    using example_subtree [of "[]"] by (simp_all add: fiber_subtree_def)
  have e: "expirationTime (example_fibers [] 7) = NoWork"
    by (simp add: example_fibers_at blank_fiber_def)
  have "walk_forest 4 0 (Fin 1) 5 [4, 9] example_tree (example_fibers []) 7
          = example_fibers [] 7"
    by (rule walk_forest_below_shield [OF d o 7])
  then have "expirationTime_after
               (propagateContextChange 4 0 (Fin 1) 5 (example_fibers [])) 7 = Some NoWork"
    using fiber_subtree_refine [OF example_subtree [of "[]"], of 0 "Fin 1" 5] e
    by (simp add: expirationTime_after_def)
  then show ?thesis
    using example_matches(2) [of "[]"] e by (simp add: NoWork_def)
qed

theorem propagateContextChange_marks_and_summarizes_witness:
  "fiber_subtree (example_fibers []) 4 example_tree [9] \<and>
   summarized 5 (example_fibers []) [4, 9] example_tree \<and>
   5 \<in> set (reached 4 (example_fibers []) example_tree) \<and>
   fiber_matches 0 (Fin 1) (example_fibers [] 5) \<and>
   alternate (example_fibers [] 5) = Some 15 \<and>
   expirationTime_after (propagateContextChange 4 0 (Fin 1) 5 (example_fibers [])) 5 = Some 5 \<and>
   expirationTime_after (propagateContextChange 4 0 (Fin 1) 5 (example_fibers [])) 15 = Some 5"
proof -
  have 5: "5 \<in> set (reached 4 (example_fibers []) example_tree)"
    by (simp add: example_reached)
  have a: "alternate (example_fibers [] 5) = Some 15"
    by (simp add: example_fibers_at blank_fiber_def)
  have e: "lowered 5 (expirationTime (example_fibers [] 5)) = 5"
    "lowered 5 (expirationTime (example_fibers [] 15)) = 5"
    by (simp_all add: example_fibers_at blank_fiber_def lowered_def NoWork_def)
  from propagateContextChange_marks_and_summarizes
         [OF example_subtree [of "[]"] example_summarized [of "[]"],
          where c = 0 and b = "Fin 1"]
  obtain h' where h': "propagateContextChange 4 0 (Fin 1) 5 (example_fibers []) = Some h'"
    "\<forall>f \<in> set (reached 4 (example_fibers []) example_tree).
       fiber_matches 0 (Fin 1) (example_fibers [] f) \<longrightarrow>
       expirationTime (h' f) = lowered 5 (expirationTime (example_fibers [] f)) \<and>
       (\<forall>z. alternate (example_fibers [] f) = Some z \<longrightarrow>
            expirationTime (h' z) = lowered 5 (expirationTime (example_fibers [] z)))"
    by blast
  from h'(2) 5 example_matches(1) [of "[]"]
  have "expirationTime (h' 5) = lowered 5 (expirationTime (example_fibers [] 5))"
    "\<forall>z. alternate (example_fibers [] 5) = Some z \<longrightarrow>
         expirationTime (h' z) = lowered 5 (expirationTime (example_fibers [] z))"
    by blast+
  with a e have "expirationTime (h' 5) = 5" "expirationTime (h' 15) = 5" by auto
  with h'(1) 5 a example_subtree [of "[]"] example_summarized [of "[]"]
    example_matches(1) [of "[]"]
  show ?thesis by (simp add: expirationTime_after_def)
qed

subsection \<open>pushProvider and popProvider\<close>

lemma push_fields:
  "valueStack (push cur v f s) = cursor_current s cur # valueStack s"
  "cursor_current (push cur v f s) = (cursor_current s)(cur := v)"
  "context_store (push cur v f s) = context_store s"
  "fiber_store (push cur v f s) = fiber_store s"
  by (simp_all add: push_def)

lemma pop_fields:
  "valueStack (pop cur f s) = tl (valueStack s)"
  "valueStack s = x # xs \<Longrightarrow> cursor_current (pop cur f s) = (cursor_current s)(cur := x)"
  "context_store (pop cur f s) = context_store s"
  "fiber_store (pop cur f s) = fiber_store s"
  by (simp_all add: pop_def split: list.splits)

lemma warningWithoutStack_fields:
  "valueStack (warningWithoutStack c m s) = valueStack s"
  "cursor_current (warningWithoutStack c m s) = cursor_current s"
  "context_store (warningWithoutStack c m s) = context_store s"
  "fiber_store (warningWithoutStack c m s) = fiber_store s"
  by (simp_all add: warningWithoutStack_def)

lemma pushProvider_fields:
  assumes "type (fiber_store s providerFiber) = ProviderType context"
  shows "fst (pushProvider cfg providerFiber changedBits s) = Inr ()"
    and "valueStack (snd (pushProvider cfg providerFiber changedBits s)) =
           cursor_current s ValueCursor # cursor_current s ChangedBitsCursor # valueStack s"
    and "cursor_current (snd (pushProvider cfg providerFiber changedBits s)) =
           (if isPrimaryRenderer cfg
            then (cursor_current s)
                   (ChangedBitsCursor := ctx_changedBits (context_store s context),
                    ValueCursor := ctx_currentValue (context_store s context))
            else (cursor_current s)
                   (ChangedBitsCursor := ctx_changedBits2 (context_store s context),
                    ValueCursor := ctx_currentValue2 (context_store s context)))"
    and "fiber_store (snd (pushProvider cfg providerFiber changedBits s)) = fiber_store s"
  using assms
  by (simp_all add: pushProvider_def Let_def push_fields warningWithoutStack_fields)

lemma popProvider_fields:
  assumes "type (fiber_store s providerFiber) = ProviderType context"
    and "valueStack s = v # b # st"
  shows "fst (popProvider cfg providerFiber s) = Inr ()"
    and "valueStack (snd (popProvider cfg providerFiber s)) = st"
    and "cursor_current (snd (popProvider cfg providerFiber s)) =
           (cursor_current s)(ValueCursor := v, ChangedBitsCursor := b)"
    and "isPrimaryRenderer cfg \<Longrightarrow>
         ctx_currentValue (context_store (snd (popProvider cfg providerFiber s)) context)
           = cursor_current s ValueCursor \<and>
         ctx_changedBits (context_store (snd (popProvider cfg providerFiber s)) context)
           = cursor_current s ChangedBitsCursor"
    and "\<not> isPrimaryRenderer cfg \<Longrightarrow>
         ctx_currentValue2 (context_store (snd (popProvider cfg providerFiber s)) context)
           = cursor_current s ValueCursor \<and>
         ctx_changedBits2 (context_store (snd (popProvider cfg providerFiber s)) context)
           = cursor_current s ChangedBitsCursor"
  using assms
  by (simp_all add: popProvider_def Let_def pop_fields)

text \<open>
  C3. For a provider fiber of the context \<open>context\<close>, \<open>pushProvider\<close> and then
  \<open>popProvider\<close> both return, and the context's value and changed-bits fields of the
  renderer (\<open>_currentValue\<close>, \<open>_changedBits\<close> for the primary one, \<open>_currentValue2\<close>,
  \<open>_changedBits2\<close> for a secondary one) are what they were before the push; so are the
  two cursors and the value stack.
\<close>

theorem pushProvider_popProvider_round_trip:
  assumes "type (fiber_store s providerFiber) = ProviderType context"
  shows "\<exists>s1 s2.
           pushProvider cfg providerFiber changedBits s = (Inr (), s1) \<and>
           popProvider cfg providerFiber s1 = (Inr (), s2) \<and>
           (if isPrimaryRenderer cfg
            then ctx_currentValue (context_store s2 context)
                   = ctx_currentValue (context_store s context) \<and>
                 ctx_changedBits (context_store s2 context)
                   = ctx_changedBits (context_store s context)
            else ctx_currentValue2 (context_store s2 context)
                   = ctx_currentValue2 (context_store s context) \<and>
                 ctx_changedBits2 (context_store s2 context)
                   = ctx_changedBits2 (context_store s context)) \<and>
           cursor_current s2 = cursor_current s \<and>
           valueStack s2 = valueStack s"
proof -
  define s1 where "s1 = snd (pushProvider cfg providerFiber changedBits s)"
  define s2 where "s2 = snd (popProvider cfg providerFiber s1)"
  note p = pushProvider_fields [OF assms, of cfg changedBits, folded s1_def]
  have t1: "type (fiber_store s1 providerFiber) = ProviderType context"
    using assms p(4) by simp
  note q = popProvider_fields [OF t1 p(2), of cfg, folded s2_def]
  have "pushProvider cfg providerFiber changedBits s = (Inr (), s1)"
    using p(1) by (simp add: s1_def prod_eq_iff)
  moreover have "popProvider cfg providerFiber s1 = (Inr (), s2)"
    using q(1) by (simp add: s2_def prod_eq_iff)
  moreover have "cursor_current s2 = cursor_current s"
    unfolding q(3) p(3) by (auto simp: fun_eq_iff split: cursor.splits)
  moreover have "valueStack s2 = valueStack s"
    by (rule q(2))
  moreover have "isPrimaryRenderer cfg \<Longrightarrow>
      ctx_currentValue (context_store s2 context) = ctx_currentValue (context_store s context) \<and>
      ctx_changedBits (context_store s2 context) = ctx_changedBits (context_store s context)"
    using q(4) p(3) by simp
  moreover have "\<not> isPrimaryRenderer cfg \<Longrightarrow>
      ctx_currentValue2 (context_store s2 context) = ctx_currentValue2 (context_store s context) \<and>
      ctx_changedBits2 (context_store s2 context) = ctx_changedBits2 (context_store s context)"
    using q(5) p(3) by simp
  ultimately show ?thesis by (cases "isPrimaryRenderer cfg") auto
qed


theorem pushProvider_popProvider_round_trip_witness:
  "type (fiber_store example_module_state 1) = ProviderType 0 \<and>
   (\<exists>s1 s2.
      pushProvider example_config 1 (Fin 5) example_module_state = (Inr (), s1) \<and>
      ctx_currentValue (context_store s1 0) = JStr ''new'' \<and>
      popProvider example_config 1 s1 = (Inr (), s2) \<and>
      ctx_currentValue (context_store s2 0) = JStr ''default'' \<and>
      ctx_changedBits (context_store s2 0) = JUndefined)"
proof -
  have t: "type (fiber_store example_module_state 1) = ProviderType 0"
    by (simp add: example_module_state_def initial_module_state_def blank_fiber_def)
  have v: "ctx_currentValue (context_store example_module_state 0) = JStr ''default''"
      "ctx_changedBits (context_store example_module_state 0) = JUndefined"
      "isPrimaryRenderer example_config"
    by (simp_all add: example_module_state_def initial_module_state_def createContext_def
        example_config_def)
  from pushProvider_popProvider_round_trip [OF t, of example_config "Fin 5"]
  obtain s1 s2 where
    a: "pushProvider example_config 1 (Fin 5) example_module_state = (Inr (), s1)" and
    b: "popProvider example_config 1 s1 = (Inr (), s2)" and
    c: "ctx_currentValue (context_store s2 0) = JStr ''default''"
       "ctx_changedBits (context_store s2 0) = JUndefined"
    using v by auto
  have "ctx_currentValue (context_store (snd (pushProvider example_config 1 (Fin 5)
          example_module_state)) 0) = JStr ''new''"
    by (simp add: pushProvider_def example_module_state_def initial_module_state_def
        blank_fiber_def example_config_def push_def Let_def warningWithoutStack_def
        get_prop_def createContext_def)
  with a have "ctx_currentValue (context_store s1 0) = JStr ''new''" by simp
  with t a b c show ?thesis by blast
qed

subsection \<open>readContext\<close>

text \<open>
  C5 as stated fails: between renders, in the state \<open>resetContextDependences\<close> leaves,
  \<open>readContext\<close> with \<open>observedBits\<close> 0 returns the context's value.
\<close>

theorem readContext_unobserved_outside_render:
  "currentlyRenderingFiber (resetContextDependences example_module_state) = None \<and>
   fst (readContext example_config 0 (JNum (Fin 0))
          (resetContextDependences example_module_state)) = Inr (JStr ''default'')"
  by (simp add: readContext_def resetContextDependences_def example_module_state_def
      initial_module_state_def example_config_def createContext_def num_strict_eq_def
      is_zero_def)

text \<open>
  C5, amended. With no dispatcher installed the public \<open>readContext\<close> of ReactContext
  signals an invariant violation for every context and every \<open>observedBits\<close>. The
  reconciler's \<open>readContext\<close>, when no fiber is rendering and no dependency has been
  recorded (the state between renders) and the context is not the one noted as fully
  observed, signals it for every \<open>observedBits\<close> other than \<open>false\<close> and 0.
\<close>

theorem readContext_outside_render:
  "ReactContext_readContext None context observedBits t = (Inl InvariantViolation, t) \<and>
   (currentlyRenderingFiber s = None \<longrightarrow> lastContextDependency s = None \<longrightarrow>
    lastContextWithAllBitsObserved s \<noteq> Some context \<longrightarrow>
    observedBits \<noteq> JBool False \<longrightarrow> \<not> strict_eq observedBits (JNum (Fin 0)) \<longrightarrow>
      fst (readContext cfg context observedBits s) = Inl InvariantViolation)"
  by (cases observedBits)
     (simp_all add: ReactContext_readContext_def readContext_def Let_def split: prod.splits)

theorem readContext_outside_render_witness:
  "currentlyRenderingFiber (resetContextDependences example_module_state) = None \<and>
   lastContextDependency (resetContextDependences example_module_state) = None \<and>
   lastContextWithAllBitsObserved (resetContextDependences example_module_state) \<noteq> Some 0 \<and>
   JUndefined \<noteq> JBool False \<and> \<not> strict_eq JUndefined (JNum (Fin 0)) \<and>
   fst (readContext example_config 0 JUndefined
          (resetContextDependences example_module_state)) = Inl InvariantViolation"
  using readContext_outside_render
          [of 0 JUndefined example_module_state "resetContextDependences example_module_state"
              example_config]
  by (simp add: resetContextDependences_def)

text \<open>
  C9. \<open>readContext\<close> with \<open>observedBits\<close> \<open>false\<close> or 0 returns the context's current
  value and leaves the whole state as it was: no dependency record is appended and no
  invariant violation is signalled, whatever \<open>currentlyRenderingFiber\<close> is. Conversely,
  when \<open>readContext\<close> signals, the read was one that records a first dependency.
\<close>

theorem readContext_unobserved:
  "(observedBits = JBool False \<or> observedBits = JNum (Fin 0) \<longrightarrow>
      readContext cfg context observedBits s =
        (Inr (if isPrimaryRenderer cfg then ctx_currentValue (context_store s context)
              else ctx_currentValue2 (context_store s context)), s)) \<and>
   (fst (readContext cfg context observedBits s) = Inl e \<longrightarrow>
      observedBits \<noteq> JBool False \<and> \<not> strict_eq observedBits (JNum (Fin 0)) \<and>
      lastContextDependency s = None \<and> currentlyRenderingFiber s = None)"
  by (cases observedBits)
     (auto simp add: readContext_def Let_def num_strict_eq_def is_zero_def
        split: prod.splits option.splits if_splits)

theorem readContext_unobserved_witness:
  "currentlyRenderingFiber (resetContextDependences example_module_state) = None \<and>
   readContext example_config 0 (JBool False) (resetContextDependences example_module_state)
     = (Inr (JStr ''default''), resetContextDependences example_module_state) \<and>
   readContext example_config 0 (JNum (Fin 0)) (resetContextDependences example_module_state)
     = (Inr (JStr ''default''), resetContextDependences example_module_state) \<and>
   firstContextDependency
     (fiber_store (snd (readContext example_config 0 (JNum (Fin 0))
        (resetContextDependences example_module_state))) 1) = []"
proof -
  have v: "ctx_currentValue (context_store (resetContextDependences example_module_state) 0)
             = JStr ''default''"
      "isPrimaryRenderer example_config"
      "currentlyRenderingFiber (resetContextDependences example_module_state) = None"
      "firstContextDependency
         (fiber_store (resetContextDependences example_module_state) 1) = []"
    by (simp_all add: example_module_state_def initial_module_state_def createContext_def
        example_config_def resetContextDependences_def blank_fiber_def)
  show ?thesis
    using readContext_unobserved
            [of "JBool False" example_config 0
                "resetContextDependences example_module_state"]
          readContext_unobserved
            [of "JNum (Fin 0)" example_config 0
                "resetContextDependences example_module_state"]
          v
    by simp
qed

subsection \<open>The DevTools hook wrappers\<close>

lemma try_catch_returns:
  assumes "\<And>err s'. fst (handler err s') = Inr ()"
  shows "fst (try_catch body handler s) = Inr ()"
  using assms by (simp add: try_catch_def split: prod.splits sum.splits)

lemma module_kept_call_out: "module_kept s (snd (call_out c s))"
  by (simp add: module_kept_def call_out_def split: prod.splits)

lemma module_kept_and_then:
  assumes "\<And>s. module_kept s (snd (m s))" and "\<And>v s. module_kept s (snd (k v s))"
  shows "module_kept s (snd (and_then m k s))"
proof (cases "m s")
  case (Pair r s1)
  have 1: "module_kept s s1" using assms(1) [of s] Pair by simp
  show ?thesis
  proof (cases r)
    case (Inl err)
    then show ?thesis using Pair 1 by (simp add: and_then_def)
  next
    case (Inr v)
    then show ?thesis
      using Pair 1 assms(2) [of s1 v] by (simp add: and_then_def module_kept_def)
  qed
qed

lemma logged_once_handler:
  assumes "logged_once s" and "module_kept s s1"
  shows "logged_once (snd (if c \<and> \<not> hasLoggedError s1
           then (Inr (),
                 log_error ''React instrumentation encountered an error: %s'' err
                   (s1\<lparr>hasLoggedError := True\<rparr>))
           else (Inr (), s1)))"
  using assms
  by (auto simp add: logged_once_def module_kept_def wrapper_errors_def log_error_def)

lemma logged_once_try_catch:
  assumes "logged_once s" and "\<And>s. module_kept s (snd (body s))"
  shows "logged_once (snd (try_catch body
           (\<lambda>err s1. if c \<and> \<not> hasLoggedError s1
              then (Inr (),
                    log_error ''React instrumentation encountered an error: %s'' err
                      (s1\<lparr>hasLoggedError := True\<rparr>))
              else (Inr (), s1)) s))"
proof (cases "body s")
  case (Pair r s1)
  have k: "module_kept s s1" using assms(2) [of s] Pair by simp
  show ?thesis
  proof (cases r)
    case (Inl err)
    then show ?thesis
      using Pair logged_once_handler [OF assms(1) k, of c err] by (simp add: try_catch_def)
  next
    case (Inr v)
    then show ?thesis
      using Pair k assms(1)
      by (simp add: try_catch_def logged_once_def module_kept_def wrapper_errors_def)
  qed
qed

lemma onScheduleRoot_returns: "fst (onScheduleRoot env fiberRoot children s) = Inr ()"
  by (simp add: onScheduleRoot_def try_catch_returns split: option.splits)

lemma onCommitRoot_returns: "fst (onCommitRoot env fiberRoot t s) = Inr ()"
  by (simp add: onCommitRoot_def try_catch_returns split: option.splits)

lemma onCommitUnmount_returns: "fst (onCommitUnmount env f s) = Inr ()"
  by (simp add: onCommitUnmount_def try_catch_returns split: option.splits)

lemma onScheduleRoot_logged_once:
  assumes "logged_once s"
  shows "logged_once (snd (onScheduleRoot env fiberRoot children s))"
proof (cases "DEV env")
  case False
  then show ?thesis using assms by (simp add: onScheduleRoot_def)
next
  case True
  show ?thesis
  proof (cases "onScheduleFiberRoot s")
    case None
    then show ?thesis using assms by (simp add: onScheduleRoot_def)
  next
    case (Some callback)
    show ?thesis
      using logged_once_try_catch [OF assms, of _ "DEV env"] True Some
      by (simp add: onScheduleRoot_def module_kept_call_out)
  qed
qed

lemma handler_dev:
  "(\<lambda>err s1. if d then (if \<not> hasLoggedError s1 then a err s1 else b s1) else b s1)
     = (\<lambda>err s1. if d \<and> \<not> hasLoggedError s1 then a err s1 else b s1)"
  by (auto simp: fun_eq_iff)

lemma onCommitRoot_logged_once:
  assumes "logged_once s"
  shows "logged_once (snd (onCommitRoot env fiberRoot t s))"
proof (cases "onCommitFiberRoot s")
  case None
  then show ?thesis using assms by (simp add: onCommitRoot_def)
next
  case (Some callback)
  have body: "\<And>s0. module_kept s0 (snd
      ((\<lambda>s0. (let didError = ((current_effectTag fiberRoot AND DidCapture env) = DidCapture env) in
                if enableProfilerTimer env then
                  and_then (call_out (getCurrentTime env))
                    (\<lambda>currentTime.
                       and_then
                         (call_out (inferPriorityFromExpirationTime env currentTime t))
                         (\<lambda>priorityLevel s1.
                            call_out (callback (CommitFiberRoot (rendererID s1) fiberRoot
                                                  (PriorityLevel priorityLevel) didError)) s1))
                    s0
                else
                  call_out (callback (CommitFiberRoot (rendererID s0) fiberRoot
                                        PriorityUndefined didError)) s0)) s0))"
    by (simp add: Let_def module_kept_call_out module_kept_and_then)
  show ?thesis
    unfolding onCommitRoot_def Some option.case handler_dev
    by (rule logged_once_try_catch [OF assms body])
qed

lemma onCommitUnmount_logged_once:
  assumes "logged_once s"
  shows "logged_once (snd (onCommitUnmount env f s))"
proof (cases "onCommitFiberUnmount s")
  case None
  then show ?thesis using assms by (simp add: onCommitUnmount_def)
next
  case (Some callback)
  show ?thesis
    unfolding onCommitUnmount_def Some option.case handler_dev
    by (rule logged_once_try_catch [OF assms]) (rule module_kept_call_out)
qed

lemma injectInternals_result:
  "\<exists>b. fst (injectInternals env global_hook internals s) = Inr b"
  by (auto simp add: injectInternals_def and_then_def try_catch_def
      split: option.splits prod.splits sum.splits)

lemma injectInternals_wrapper_errors:
  "wrapper_errors (snd (injectInternals env global_hook internals s)) = wrapper_errors s \<and>
   hasLoggedError (snd (injectInternals env global_hook internals s)) = hasLoggedError s"
proof (cases global_hook)
  case None
  then show ?thesis by (simp add: injectInternals_def)
next
  case (Some hook)
  show ?thesis
  proof (cases "inject hook internals (world s)")
    case (Pair r w)
    then show ?thesis
      using Some
      by (cases r)
         (simp_all add: injectInternals_def and_then_def try_catch_def call_out_def
            wrapper_errors_def log_error_def Let_def split: option.splits)
  qed
qed

lemma devtools_step_returns: "fst (devtools_step env e s) = Inr ()"
proof (cases e)
  case (InjectInternals g i)
  then show ?thesis
    using injectInternals_result [of env g i s] by (auto split: prod.splits sum.splits)
qed (simp_all add: onScheduleRoot_returns onCommitRoot_returns onCommitUnmount_returns)

lemma devtools_step_logged_once:
  assumes "logged_once s"
  shows "logged_once (snd (devtools_step env e s))"
proof (cases e)
  case (InjectInternals g i)
  then show ?thesis
    using injectInternals_wrapper_errors [of env g i s] assms
    by (auto simp add: logged_once_def split: prod.splits sum.splits)
qed (simp_all add: assms onScheduleRoot_logged_once onCommitRoot_logged_once
       onCommitUnmount_logged_once)

lemma devtools_session_logged_once:
  "logged_once s \<Longrightarrow>
   fst (devtools_session env es s) = Inr () \<and> logged_once (snd (devtools_session env es s))"
proof (induction es arbitrary: s)
  case Nil
  then show ?case by simp
next
  case (Cons e es)
  obtain s1 where 1: "devtools_step env e s = (Inr (), s1)"
    using devtools_step_returns [of env e s] by (cases "devtools_step env e s") auto
  have "logged_once s1"
    using devtools_step_logged_once [OF Cons.prems, of env e] 1 by simp
  then show ?case using Cons.IH [of s1] 1 by simp
qed

text \<open>
  C7. Whatever the callbacks of the hook do, also when they throw, \<open>onScheduleRoot\<close>,
  \<open>onCommitRoot\<close> and \<open>onCommitUnmount\<close> return normally. A whole session, any sequence
  of calls into the module from the state it is loaded in, returns normally as well, and
  the three wrappers together have written to \<open>console.error\<close> at most once.
\<close>

theorem devtools_wrappers_catch_and_log_once:
  "fst (onScheduleRoot env fiberRoot children s) = Inr () \<and>
   fst (onCommitRoot env fiberRoot t s) = Inr () \<and>
   fst (onCommitUnmount env f s) = Inr () \<and>
   fst (devtools_session env es (initial_devtools_state w)) = Inr () \<and>
   length (wrapper_errors (snd (devtools_session env es (initial_devtools_state w)))) \<le> 1"
proof -
  have "logged_once (initial_devtools_state w)"
    by (simp add: logged_once_def initial_devtools_state_def wrapper_errors_def)
  from devtools_session_logged_once [OF this, of env es]
  show ?thesis
    by (simp add: onScheduleRoot_returns onCommitRoot_returns onCommitUnmount_returns
        logged_once_def)
qed

lemma example_session_run:
  "wrapper_errors (snd (devtools_session example_devtools_env example_session
      (initial_devtools_state ()))) =
     [(''React instrumentation encountered an error: %s'', JStr ''unmount'')]"
  by (simp add: example_session_def example_devtools_env_def throwing_hook_def
      initial_devtools_state_def injectInternals_def onCommitUnmount_def onCommitRoot_def
      onScheduleRoot_def and_then_def try_catch_def call_out_def log_error_def
      wrapper_errors_def)

theorem devtools_wrappers_catch_and_log_once_witness:
  "fst (devtools_session example_devtools_env example_session (initial_devtools_state ()))
     = Inr () \<and>
   wrapper_errors (snd (devtools_session example_devtools_env example_session
      (initial_devtools_state ()))) =
     [(''React instrumentation encountered an error: %s'', JStr ''unmount'')] \<and>
   length (wrapper_errors (snd (devtools_session example_devtools_env example_session
      (initial_devtools_state ())))) \<le> 1"
  using devtools_wrappers_catch_and_log_once
          [of example_devtools_env "\<lparr>current_effectTag = 0\<rparr>" JNull
              "initial_devtools_state ()" 1 4 example_session "()"]
        example_session_run
  by simp

subsection \<open>installHook\<close>

lemma patchConsoleForErrorsAndWarnings_succeeds:
  assumes "\<not> console_read_only targetConsole ''error''"
    and "\<not> console_read_only targetConsole ''trace''"
    and "\<not> console_read_only targetConsole ''warn''"
  shows "patchConsoleForErrorsAndWarnings targetConsole =
           (None, targetConsole\<lparr>console_methods := (console_methods targetConsole)
              (''error'' \<mapsto> OverrideMethod (console_methods targetConsole ''error''),
               ''trace'' \<mapsto> OverrideMethod (console_methods targetConsole ''trace''),
               ''warn'' \<mapsto> OverrideMethod (console_methods targetConsole ''warn''))\<rparr>)"
  using assms by (simp add: patchConsoleForErrorsAndWarnings_def Let_def)

lemma patchConsoleForErrorsAndWarnings_error:
  "fst (patchConsoleForErrorsAndWarnings targetConsole) = None \<or>
   fst (patchConsoleForErrorsAndWarnings targetConsole) = Some TypeError"
  by (simp add: patchConsoleForErrorsAndWarnings_def Let_def)

lemma installHook_unfold:
  "installHook d (TargetObject obj) injectedSettings targetConsole =
     (if \<not> inherits_hasOwnProperty obj then (Inl TypeError, TargetObject obj, targetConsole)
      else if own_properties obj GLOBAL_HOOK_PROPERTY \<noteq> None then
        (Inr None, TargetObject obj, targetConsole)
      else
        (case fst (patchConsoleForErrorsAndWarnings targetConsole) of
           Some err \<Rightarrow>
             (Inl err, TargetObject obj, snd (patchConsoleForErrorsAndWarnings targetConsole))
         | None \<Rightarrow>
             if \<not> extensible obj then
               (Inl TypeError, TargetObject obj,
                snd (patchConsoleForErrorsAndWarnings targetConsole))
             else
               (Inr (Some
                  \<lparr>hook_rendererInterfaces = Map.empty, hook_listeners = Map.empty,
                   hook_backends = Map.empty, hook_renderers = Map.empty,
                   hook_supportsFiber = True,
                   hook_settings =
                     (case injectedSettings of
                        Some injected \<Rightarrow> injected
                      | None \<Rightarrow>
                          \<lparr>appendComponentStack = True, breakOnConsoleErrors = False,
                           showInlineWarningsAndErrors = False,
                           hideConsoleLogsInStrictMode = False\<rparr>),
                   hook_workTagMapByRendererId = Map.empty\<rparr>),
                TargetObject
                  (obj\<lparr>own_properties := (own_properties obj)
                     (GLOBAL_HOOK_PROPERTY \<mapsto>
                        \<lparr>configurable = d, enumerable = False,
                         getter = HookObject
                           \<lparr>hook_rendererInterfaces = Map.empty, hook_listeners = Map.empty,
                            hook_backends = Map.empty, hook_renderers = Map.empty,
                            hook_supportsFiber = True,
                            hook_settings =
                              (case injectedSettings of
                                 Some injected \<Rightarrow> injected
                               | None \<Rightarrow>
                                   \<lparr>appendComponentStack = True, breakOnConsoleErrors = False,
                                    showInlineWarningsAndErrors = False,
                                    hideConsoleLogsInStrictMode = False\<rparr>),
                            hook_workTagMapByRendererId = Map.empty\<rparr>\<rparr>)\<rparr>),
                snd (patchConsoleForErrorsAndWarnings targetConsole))))"
  by (cases "patchConsoleForErrorsAndWarnings targetConsole")
     (simp add: installHook_def Let_def split: option.splits)

text \<open>
  C6, amended. On an object that has the property \<open>__REACT_DEVTOOLS_GLOBAL_HOOK__\<close> of its
  own (and the \<open>hasOwnProperty\<close> of \<open>Object.prototype\<close>), \<open>installHook\<close> returns \<open>null\<close> and
  leaves the target and the console as they are. On an extensible object without the
  property, with a console whose methods \<open>error\<close>, \<open>trace\<close> and \<open>warn\<close> can be assigned,
  it returns a hook, the property then yields this hook, the target is otherwise as
  before, and installing again is the first case: \<open>null\<close>, and nothing changes. On an
  object without the property that is not extensible it throws a \<open>TypeError\<close> and installs
  nothing, after the console has been patched. On \<open>null\<close>, \<open>undefined\<close> and an object without
  \<open>hasOwnProperty\<close> it throws a \<open>TypeError\<close> and changes nothing.
\<close>

theorem installHook_idempotent:
  "(inherits_hasOwnProperty obj \<and> own_properties obj GLOBAL_HOOK_PROPERTY \<noteq> None \<longrightarrow>
      installHook d (TargetObject obj) injectedSettings targetConsole
        = (Inr None, TargetObject obj, targetConsole)) \<and>
   (inherits_hasOwnProperty obj \<and> own_properties obj GLOBAL_HOOK_PROPERTY = None \<and>
    extensible obj \<and> \<not> console_read_only targetConsole ''error'' \<and>
    \<not> console_read_only targetConsole ''trace'' \<and>
    \<not> console_read_only targetConsole ''warn'' \<longrightarrow>
      (\<exists>hook targetConsole'.
         installHook d (TargetObject obj) injectedSettings targetConsole
           = (Inr (Some hook),
              TargetObject
                (obj\<lparr>own_properties := (own_properties obj)
                   (GLOBAL_HOOK_PROPERTY \<mapsto>
                      \<lparr>configurable = d, enumerable = False, getter = HookObject hook\<rparr>)\<rparr>),
              targetConsole') \<and>
         installHook d
           (TargetObject
              (obj\<lparr>own_properties := (own_properties obj)
                 (GLOBAL_HOOK_PROPERTY \<mapsto>
                    \<lparr>configurable = d, enumerable = False, getter = HookObject hook\<rparr>)\<rparr>))
           injectedSettings' targetConsole'
           = (Inr None,
              TargetObject
                (obj\<lparr>own_properties := (own_properties obj)
                   (GLOBAL_HOOK_PROPERTY \<mapsto>
                      \<lparr>configurable = d, enumerable = False, getter = HookObject hook\<rparr>)\<rparr>),
              targetConsole'))) \<and>
   (inherits_hasOwnProperty obj \<and> own_properties obj GLOBAL_HOOK_PROPERTY = None \<and>
    \<not> extensible obj \<longrightarrow>
      installHook d (TargetObject obj) injectedSettings targetConsole
        = (Inl TypeError, TargetObject obj,
           snd (patchConsoleForErrorsAndWarnings targetConsole))) \<and>
   (\<not> inherits_hasOwnProperty obj \<longrightarrow>
      installHook d (TargetObject obj) injectedSettings targetConsole
        = (Inl TypeError, TargetObject obj, targetConsole)) \<and>
   installHook d NullOrUndefined injectedSettings targetConsole
     = (Inl TypeError, NullOrUndefined, targetConsole)"
proof (intro conjI impI)
  assume "inherits_hasOwnProperty obj \<and> own_properties obj GLOBAL_HOOK_PROPERTY \<noteq> None"
  then show "installHook d (TargetObject obj) injectedSettings targetConsole
               = (Inr None, TargetObject obj, targetConsole)"
    by (simp add: installHook_unfold)
next
  assume a: "inherits_hasOwnProperty obj \<and> own_properties obj GLOBAL_HOOK_PROPERTY = None \<and>
    extensible obj \<and> \<not> console_read_only targetConsole ''error'' \<and>
    \<not> console_read_only targetConsole ''trace'' \<and>
    \<not> console_read_only targetConsole ''warn''"
  then have p: "fst (patchConsoleForErrorsAndWarnings targetConsole) = None"
    by (simp add: patchConsoleForErrorsAndWarnings_succeeds)
  show "\<exists>hook targetConsole'.
         installHook d (TargetObject obj) injectedSettings targetConsole
           = (Inr (Some hook),
              TargetObject
                (obj\<lparr>own_properties := (own_properties obj)
                   (GLOBAL_HOOK_PROPERTY \<mapsto>
                      \<lparr>configurable = d, enumerable = False, getter = HookObject hook\<rparr>)\<rparr>),
              targetConsole') \<and>
         installHook d
           (TargetObject
              (obj\<lparr>own_properties := (own_properties obj)
                 (GLOBAL_HOOK_PROPERTY \<mapsto>
                    \<lparr>configurable = d, enumerable = False, getter = HookObject hook\<rparr>)\<rparr>))
           injectedSettings' targetConsole'
           = (Inr None,
              TargetObject
                (obj\<lparr>own_properties := (own_properties obj)
                   (GLOBAL_HOOK_PROPERTY \<mapsto>
                      \<lparr>configurable = d, enumerable = False, getter = HookObject hook\<rparr>)\<rparr>),
              targetConsole')"
    using a p by (simp add: installHook_unfold)
next
  assume a: "inherits_hasOwnProperty obj \<and> own_properties obj GLOBAL_HOOK_PROPERTY = None \<and>
    \<not> extensible obj"
  from patchConsoleForErrorsAndWarnings_error [of targetConsole]
  show "installHook d (TargetObject obj) injectedSettings targetConsole
          = (Inl TypeError, TargetObject obj,
             snd (patchConsoleForErrorsAndWarnings targetConsole))"
    using a by (auto simp add: installHook_unfold)
next
  assume "\<not> inherits_hasOwnProperty obj"
  then show "installHook d (TargetObject obj) injectedSettings targetConsole
               = (Inl TypeError, TargetObject obj, targetConsole)"
    by (simp add: installHook_unfold)
next
  show "installHook d NullOrUndefined injectedSettings targetConsole
          = (Inl TypeError, NullOrUndefined, targetConsole)"
    by (simp add: installHook_def)
qed

text \<open>
  C6 as stated fails on a target without the property that cannot take it: on a frozen
  window \<open>installHook\<close> installs no hook and returns none. It throws a \<open>TypeError\<close>, the
  window is as before, and the methods of the console have been overridden.
\<close>

theorem installHook_throws_on_frozen_target:
  "own_properties frozen_target GLOBAL_HOOK_PROPERTY = None \<and>
   installHook True (TargetObject frozen_target) None example_console
     = (Inl TypeError, TargetObject frozen_target,
        example_console\<lparr>console_methods := (console_methods example_console)
          (''error'' \<mapsto> OverrideMethod (Some NativeMethod),
           ''trace'' \<mapsto> OverrideMethod None,
           ''warn'' \<mapsto> OverrideMethod (Some NativeMethod))\<rparr>)"
proof -
  have n: "own_properties frozen_target GLOBAL_HOOK_PROPERTY = None"
    by (simp add: frozen_target_def GLOBAL_HOOK_PROPERTY_def)
  have f: "inherits_hasOwnProperty frozen_target" "\<not> extensible frozen_target"
    by (simp_all add: frozen_target_def)
  have p: "patchConsoleForErrorsAndWarnings example_console =
             (None, example_console\<lparr>console_methods := (console_methods example_console)
                (''error'' \<mapsto> OverrideMethod (Some NativeMethod),
                 ''trace'' \<mapsto> OverrideMethod None,
                 ''warn'' \<mapsto> OverrideMethod (Some NativeMethod))\<rparr>)"
    by (simp add: patchConsoleForErrorsAndWarnings_def Let_def example_console_def)
  show ?thesis
    using n f p by (simp add: installHook_unfold)
qed

theorem installHook_idempotent_witness:
  "inherits_hasOwnProperty example_target \<and>
   own_properties example_target GLOBAL_HOOK_PROPERTY = None \<and>
   extensible example_target \<and>
   (\<exists>hook targetConsole'.
      installHook True (TargetObject example_target) None example_console
        = (Inr (Some hook),
           TargetObject
             (example_target\<lparr>own_properties := (own_properties example_target)
                (GLOBAL_HOOK_PROPERTY \<mapsto>
                   \<lparr>configurable = True, enumerable = False, getter = HookObject hook\<rparr>)\<rparr>),
           targetConsole') \<and>
      installHook True
        (TargetObject
           (example_target\<lparr>own_properties := (own_properties example_target)
              (GLOBAL_HOOK_PROPERTY \<mapsto>
                 \<lparr>configurable = True, enumerable = False, getter = HookObject hook\<rparr>)\<rparr>))
        None targetConsole'
        = (Inr None,
           TargetObject
             (example_target\<lparr>own_properties := (own_properties example_target)
                (GLOBAL_HOOK_PROPERTY \<mapsto>
                   \<lparr>configurable = True, enumerable = False, getter = HookObject hook\<rparr>)\<rparr>),
           targetConsole'))"
proof -
  have a: "inherits_hasOwnProperty example_target \<and>
           own_properties example_target GLOBAL_HOOK_PROPERTY = None \<and>
           extensible example_target \<and> \<not> console_read_only example_console ''error'' \<and>
           \<not> console_read_only example_console ''trace'' \<and>
           \<not> console_read_only example_console ''warn''"
    by (simp add: example_target_def example_console_def GLOBAL_HOOK_PROPERTY_def)
  from installHook_idempotent
         [where obj = example_target and d = True and injectedSettings = None
            and targetConsole = example_console and injectedSettings' = None,
          THEN conjunct2, THEN conjunct1, THEN mp, OF a] a
  show ?thesis by blast
qed

subsection \<open>The commit bracket\<close>

text \<open>
  C8. \<open>prepareForCommit\<close> records whether event dispatch is enabled, disables it and
  captures the current selection. Whatever the commit then does to the dispatch flag and
  to the selection, \<open>resetAfterCommit\<close> returns, and afterwards the selection is the
  captured one, the dispatch flag has its value from before the commit, and both saved
  slots are \<open>null\<close> again.
\<close>

theorem commit_bracket_round_trip:
  "eventsEnabled (prepareForCommit h) = Some (emitter_enabled h) \<and>
   emitter_enabled (prepareForCommit h) = False \<and>
   selectionInformation (prepareForCommit h) = Some (current_selection h) \<and>
   resetAfterCommit ((prepareForCommit h)\<lparr>emitter_enabled := e, current_selection := sel\<rparr>)
     = (Inr (), h\<lparr>eventsEnabled := None, selectionInformation := None\<rparr>)"
  by (simp add: prepareForCommit_def resetAfterCommit_def isEnabled_def setEnabled_def
      getSelectionInformation_def restoreSelection_def Let_def)

theorem commit_bracket_round_trip_witness:
  "resetAfterCommit
     ((prepareForCommit
         \<lparr>emitter_enabled = True, current_selection = (3::nat, 7::nat),
          eventsEnabled = None, selectionInformation = None\<rparr>)
      \<lparr>emitter_enabled := False, current_selection := (0, 0)\<rparr>)
   = (Inr (), \<lparr>emitter_enabled = True, current_selection = (3, 7),
               eventsEnabled = None, selectionInformation = None\<rparr>)"
  using commit_bracket_round_trip
          [where h = "\<lparr>emitter_enabled = True, current_selection = (3::nat, 7::nat),
                       eventsEnabled = None, selectionInformation = None\<rparr>"
             and e = False and sel = "(0, 0)"]
  by simp

subsection \<open>VerticalScrollView\<close>

lemma scroll_state_overwrite:
  "(st :: 'n scroll_state)\<lparr>scroll_offset := scroll_offset c, scroll_length := scroll_length c\<rparr> = c"
  by (cases st, cases c) simp

lemma scroll_state_eq_iff:
  "((a :: 'n scroll_state) = b) = (scroll_offset a = scroll_offset b \<and> scroll_length a = scroll_length b)"
  by (cases a, cases b) simp

lemma setScrollState_cases:
  "setScrollState helpers p v =
     (let c = clampState helpers p (contentView_frame_height v) (contentView_frame_height v)
                (frame_height v)
      in if areScrollStatesEqual helpers c (scrollState v) then (False, v)
         else (True, v\<lparr>scrollState := c, needsDisplay := True,
                        onChange_calls := onChange_calls v @
                          (case onChangeCallback v of
                             Some callback \<Rightarrow> [(callback, c, frame_height v)]
                           | None \<Rightarrow> [])\<rparr>))"
  by (simp add: setScrollState_def setNeedsDisplay_def Let_def scroll_state_overwrite
      split: option.splits)

text \<open>
  C10, amended. \<open>_setScrollState\<close> clamps the proposed state against the content height and
  the container height. When \<open>areScrollStatesEqual\<close> finds the clamped state equal to the
  current one it returns \<open>false\<close> and the view is as before: \<open>_scrollState\<close> unchanged, no
  call to the callback. Otherwise it returns \<open>true\<close>, \<open>_scrollState\<close> is the clamped state,
  and the registered callback has been called once more, with the clamped state and the
  container height. \<open>scrollBy\<close> is \<open>_setScrollState\<close> on the translated state: it returns
  \<open>true\<close> exactly when \<open>areScrollStatesEqual\<close> finds the clamped translated state different
  from the current one, and, where that function compares the states by their two fields
  (as \<open>===\<close> on both does for numbers other than \<open>NaN\<close>), exactly when the offset or the
  length of \<open>_scrollState\<close> has changed.
\<close>

theorem setScrollState_noop_iff_clamped_equal:
  "(areScrollStatesEqual helpers
      (clampState helpers proposedState (contentView_frame_height v)
               (contentView_frame_height v) (frame_height v)) (scrollState v) \<longrightarrow>
      setScrollState helpers proposedState v = (False, v)) \<and>
   (\<not> areScrollStatesEqual helpers
        (clampState helpers proposedState (contentView_frame_height v)
               (contentView_frame_height v) (frame_height v)) (scrollState v) \<longrightarrow>
      fst (setScrollState helpers proposedState v) = True \<and>
      scrollState (snd (setScrollState helpers proposedState v)) =
        (clampState helpers proposedState (contentView_frame_height v)
               (contentView_frame_height v) (frame_height v)) \<and>
      onChange_calls (snd (setScrollState helpers proposedState v)) =
        onChange_calls v @
          (case onChangeCallback v of
             Some callback \<Rightarrow>
               [(callback,
                 (clampState helpers proposedState (contentView_frame_height v)
               (contentView_frame_height v) (frame_height v)),
                 frame_height v)]
           | None \<Rightarrow> [])) \<and>
   scrollBy helpers deltaY v =
     setScrollState helpers
       (translateState helpers (scrollState v) (- deltaY) (frame_height v)) v \<and>
   fst (scrollBy helpers deltaY v) =
     (\<not> areScrollStatesEqual helpers
          (clampState helpers
             (translateState helpers (scrollState v) (- deltaY) (frame_height v))
             (contentView_frame_height v) (contentView_frame_height v) (frame_height v))
          (scrollState v)) \<and>
   (areScrollStatesEqual helpers = (\<lambda>a b. scroll_offset a = scroll_offset b \<and>
                                         scroll_length a = scroll_length b) \<longrightarrow>
      fst (scrollBy helpers deltaY v) =
        (scroll_offset (scrollState (snd (scrollBy helpers deltaY v)))
           \<noteq> scroll_offset (scrollState v) \<or>
         scroll_length (scrollState (snd (scrollBy helpers deltaY v)))
           \<noteq> scroll_length (scrollState v)))"
  by (simp add: setScrollState_cases scrollBy_def Let_def)

text \<open>
  C10 as stated fails in its last part: \<open>scrollBy\<close> returns \<open>true\<close>, and calls the callback,
  when only the length of the state changes. On a view whose state is still the one of
  the constructor, scrolling down by 30 leaves the offset at 0 and clamps the length from
  0 to the height of the content.
\<close>

theorem scrollBy_true_with_offset_unchanged:
  "scrollBy example_helpers 30 new_view =
     (True, new_view
        \<lparr>scrollState := \<lparr>scroll_offset = 0, scroll_length = 100\<rparr>,
         needsDisplay := True,
         onChange_calls := [(1, \<lparr>scroll_offset = 0, scroll_length = 100\<rparr>, 50)]\<rparr>) \<and>
   scroll_offset (scrollState (snd (scrollBy example_helpers 30 new_view)))
     = scroll_offset (scrollState new_view)"
  by (simp add: scrollBy_def setScrollState_def setNeedsDisplay_def example_helpers_def
      new_view_def Let_def)

theorem setScrollState_noop_iff_clamped_equal_witness:
  "scrollBy example_helpers 30 example_view =
     (True, example_view
        \<lparr>scrollState := \<lparr>scroll_offset = - 30, scroll_length = 100\<rparr>,
         needsDisplay := True,
         onChange_calls := [(1, \<lparr>scroll_offset = - 30, scroll_length = 100\<rparr>, 50)]\<rparr>) \<and>
   scrollBy example_helpers (- 30) example_view = (False, example_view) \<and>
   fst (scrollBy example_helpers (- 30) example_view) =
     (scroll_offset (scrollState (snd (scrollBy example_helpers (- 30) example_view)))
        \<noteq> scroll_offset (scrollState example_view) \<or>
      scroll_length (scrollState (snd (scrollBy example_helpers (- 30) example_view)))
        \<noteq> scroll_length (scrollState example_view))"
proof -
  have eq: "areScrollStatesEqual example_helpers =
              (\<lambda>a b. scroll_offset a = scroll_offset b \<and> scroll_length a = scroll_length b)"
    by (simp add: example_helpers_def)
  have 1: "scrollBy example_helpers 30 example_view =
     (True, example_view
        \<lparr>scrollState := \<lparr>scroll_offset = - 30, scroll_length = 100\<rparr>,
         needsDisplay := True,
         onChange_calls := [(1, \<lparr>scroll_offset = - 30, scroll_length = 100\<rparr>, 50)]\<rparr>)"
    by (simp add: scrollBy_def setScrollState_def setNeedsDisplay_def example_helpers_def
        example_view_def Let_def)
  have 2: "scrollBy example_helpers (- 30) example_view = (False, example_view)"
    by (simp add: scrollBy_def setScrollState_def setNeedsDisplay_def example_helpers_def
        example_view_def Let_def)
  note d = setScrollState_noop_iff_clamped_equal
             [where helpers = example_helpers and v = example_view and deltaY = "- 30",
              THEN conjunct2, THEN conjunct2, THEN conjunct2, THEN conjunct2, THEN mp, OF eq]
  show ?thesis
    by (rule conjI [OF 1 conjI [OF 2 d]])
qed

end
